theory Spec2Isabelle
  imports Complex_Main "HOL-Library.Word" "HOL-Library.Sublist"
begin

section \<open>Python values used by the waveform cache and the program registry\<close>

text \<open>
  The development embeds \<^verbatim>\<open>HDAWGWaveManager\<close> and \<^verbatim>\<open>HDAWGProgramManager\<close> of
  \<^verbatim>\<open>qupulse/hardware/awgs/zihdawg.py\<close>. Voltages are real numbers (rounding of floating
  point arithmetic is not modelled), Python's unbounded integers are \<open>int\<close>, strings are
  character lists. Every exception is a value of \<open>error\<close>; a method that mutates its object
  returns the object's state next to its result, also when it raises, because a Python
  exception leaves the mutated state as it is.
\<close>

datatype ChannelID = ChanStr string | ChanInt int

datatype error =
    HDAWGValueError real real
  | HDAWGIOError string
  | IndexError
  | ValueError
  | KeyError string
  | AttributeError

text \<open>
  \<open>HDAWGValueError max_volt rng\<close> is the exception of \<^verbatim>\<open>volt_to_amp\<close> with the two numbers
  of its message, \<open>HDAWGIOError path\<close> the one of \<^verbatim>\<open>to_file\<close>. \<open>IndexError\<close> is raised by
  a tuple or an array column read out of range, \<open>ValueError\<close> by numpy when a column cannot be
  broadcast, \<open>KeyError\<close> by \<^verbatim>\<open>OrderedDict.pop\<close>.
\<close>

text \<open>\<^verbatim>\<open>str(n)\<close> for an integer: its decimal digits, with a minus sign when negative.\<close>

fun str_nat :: "nat \<Rightarrow> string" where
  "str_nat n =
     (if n < 10 then [''0123456789'' ! n]
      else str_nat (n div 10) @ [''0123456789'' ! (n mod 10)])"

declare str_nat.simps [simp del]

definition str_int :: "int \<Rightarrow> string" where
  "str_int i = (if i < 0 then CHR ''-'' # str_nat (nat (- i)) else str_nat (nat i))"

text \<open>\<^verbatim>\<open>t[i]\<close> on a tuple with a non-negative index.\<close>

definition tuple_get :: "'a list \<Rightarrow> nat \<Rightarrow> error + 'a" where
  "tuple_get xs i = (if i < length xs then Inr (xs ! i) else Inl IndexError)"

text \<open>\<^verbatim>\<open>enumerate(xs)\<close>.\<close>

definition enumerate_list :: "'a list \<Rightarrow> (nat \<times> 'a) list" where
  "enumerate_list xs = zip [0 ..< length xs] xs"

text \<open>\<^verbatim>\<open>sep.join(xs)\<close>.\<close>

fun join :: "string \<Rightarrow> string list \<Rightarrow> string" where
  "join sep [] = []"
| "join sep [x] = x"
| "join sep (x # y # ys) = x @ sep @ join sep (y # ys)"

subsection \<open>Arrays\<close>

text \<open>
  An entry of the amplitude array: a real number, or the \<^verbatim>\<open>nan\<close> that numpy's division
  produces for \<^verbatim>\<open>0.0 / 0\<close> (numpy warns and does not raise).
\<close>

datatype amp = Amp real | NaN

text \<open>
  A two-dimensional array of shape \<open>(n, k)\<close> with \<open>k \<ge> 1\<close> is kept as the list of its \<open>k\<close>
  columns, each of length \<open>n\<close>: column \<open>j\<close> is \<^verbatim>\<open>a[:, j]\<close>. (The arrays built by \<^verbatim>\<open>register\<close>
  always have at least one column, so the shape is recovered also when \<open>n = 0\<close>.)
\<close>

type_synonym 'a matrix = "'a list list"

datatype ndarray = Float64 "amp matrix" | UInt8 "8 word matrix"

text \<open>\<^verbatim>\<open>np.zeros((n, k))\<close>.\<close>

definition np_zeros :: "'a \<Rightarrow> nat \<Rightarrow> nat \<Rightarrow> 'a matrix" where
  "np_zeros z n k = replicate k (replicate n z)"

text \<open>
  \<^verbatim>\<open>a[:, idx] = col\<close> for an array \<open>a\<close> with \<open>n\<close> rows and a one-dimensional \<open>col\<close>: the column
  index is checked first, then \<open>col\<close> must have \<open>n\<close> entries or be broadcast from one entry.
\<close>

definition assign_column :: "'a matrix \<Rightarrow> nat \<Rightarrow> nat \<Rightarrow> 'a list \<Rightarrow> error + 'a matrix" where
  "assign_column a n idx col =
     (if length a \<le> idx then Inl IndexError
      else if length col = n then Inr (a[idx := col])
      else if length col = 1 then Inr (a[idx := replicate n (hd col)])
      else Inl ValueError)"

text \<open>\<^verbatim>\<open>np.max(xs)\<close> of a non-empty array.\<close>

definition np_max :: "real list \<Rightarrow> real" where
  "np_max xs = fold max (tl xs) (hd xs)"

subsection \<open>The external sampler\<close>

text \<open>
  Modelled from the spec: the class \<^verbatim>\<open>Waveform\<close> and the function \<^verbatim>\<open>get_sample_times\<close> are
  imported from modules that are not part of the sources at hand. The spec's sampler
  contract reads: given a logical waveform, a channel identifier and an array of sample
  timestamps, the sampler returns a sequence of physical-unit sample values; the sample
  count is derived from the sample rate and the waveform. A waveform is therefore a record
  of these two behaviours: \<open>sample_times w rate\<close> is the result of
  \<^verbatim>\<open>get_sample_times(w, sample_rate_in_GHz=rate)\<close>, the time axis and the number of samples,
  and \<open>get_sampled w chan ts\<close> is \<^verbatim>\<open>w.get_sampled(chan, ts)\<close>. Nothing is assumed about
  the length of the array the sampler returns.
\<close>

record Waveform =
  sample_times :: "real \<Rightarrow> real list \<times> nat"
  get_sampled :: "ChannelID \<Rightarrow> real list \<Rightarrow> real list"

section \<open>HDAWGWaveManager\<close>

text \<open>
  The object's attributes. \<open>wave_dir\<close> is the content of the directory \<^verbatim>\<open>_wave_dir\<close>: a map
  from file names to what \<^verbatim>\<open>np.savetxt\<close> wrote, the array together with its format string.
  \<open>savetxt_log\<close> is not an attribute of the source: it records, oldest first, every
  call of \<^verbatim>\<open>np.savetxt\<close> with its file name, array and format, so that writes can be
  counted and inspected.
\<close>

record wm_state =
  wave_by_data :: "int \<rightharpoonup> string"
  marker_by_data :: "int \<rightharpoonup> string"
  file_type :: string
  awg_prefix :: string
  wave_dir :: "string \<rightharpoonup> ndarray \<times> string"
  savetxt_log :: "(string \<times> ndarray \<times> string) list"

text \<open>\<^verbatim>\<open>full_file_path(name)\<close>, as the file's name inside \<^verbatim>\<open>_wave_dir\<close>.\<close>

definition full_file_path :: "wm_state \<Rightarrow> string \<Rightarrow> string" where
  "full_file_path s name = name @ ''.'' @ file_type s"

text \<open>\<^verbatim>\<open>to_file(name, wave_data, fmt, overwrite)\<close>.\<close>

definition to_file ::
  "wm_state \<Rightarrow> string \<Rightarrow> ndarray \<Rightarrow> string \<Rightarrow> bool \<Rightarrow> (error + unit) \<times> wm_state" where
  "to_file s name wave_data fmt ow =
     (let file_path = full_file_path s name in
      if wave_dir s file_path \<noteq> None \<and> \<not> ow then (Inl (HDAWGIOError file_path), s)
      else (Inr (),
            s\<lparr>wave_dir := (wave_dir s)(file_path \<mapsto> (wave_data, fmt)),
              savetxt_log := savetxt_log s @ [(file_path, wave_data, fmt)]\<rparr>))"

text \<open>\<^verbatim>\<open>generate_wave_name(data_hash)\<close> and \<^verbatim>\<open>generate_marker_name(data_hash)\<close>.\<close>

definition generate_wave_name :: "wm_state \<Rightarrow> int \<Rightarrow> string" where
  "generate_wave_name s data_hash = awg_prefix s @ ''_'' @ str_int \<bar>data_hash\<bar>"

definition generate_marker_name :: "wm_state \<Rightarrow> int \<Rightarrow> string" where
  "generate_marker_name s data_hash = awg_prefix s @ ''_M_'' @ str_int \<bar>data_hash\<bar>"

text \<open>
  \<^verbatim>\<open>volt_to_amp(volt, rng, offset)\<close>. Past the range check every \<open>\<bar>v - offset\<bar>\<close> is at most
  \<open>rng\<close>, so a division by \<open>rng = 0\<close> is the division \<^verbatim>\<open>0.0 / 0\<close>, whose value is \<^verbatim>\<open>nan\<close>.
\<close>

definition volt_to_amp :: "real list \<Rightarrow> real \<Rightarrow> real \<Rightarrow> error + amp list" where
  "volt_to_amp volt rng offset =
     (if list_ex (\<lambda>v. \<bar>v - offset\<bar> > rng) volt
      then Inl (HDAWGValueError (np_max (map (\<lambda>v. \<bar>v - offset\<bar>) volt)) rng)
      else Inr (map (\<lambda>v. if rng = 0 then NaN else Amp ((v - offset) / rng)) volt))"

text \<open>
  \<^verbatim>\<open>calc_hash(data)\<close> is \<^verbatim>\<open>hash(bytes(data))\<close>, Python's built-in hash of the array's
  bytes. It is a parameter of the model: some function from arrays to integers.
\<close>

type_synonym calc_hash = "ndarray \<Rightarrow> int"

type_synonym transformation = "real list \<Rightarrow> real list"

text \<open>
  The loop of \<^verbatim>\<open>register\<close> over \<^verbatim>\<open>enumerate(channels)\<close> that fills the amplitude array:
  an empty slot is skipped, a channel's samples are transformed by
  \<^verbatim>\<open>voltage_transformation[idx]\<close>, scaled by \<^verbatim>\<open>volt_to_amp\<close> with \<^verbatim>\<open>output_range[idx]\<close> and
  \<^verbatim>\<open>output_offset[idx]\<close>, and stored in column \<open>idx\<close>.
\<close>

fun fill_amplitude ::
  "Waveform \<Rightarrow> real list \<Rightarrow> nat \<Rightarrow> transformation list \<Rightarrow> real list \<Rightarrow> real list \<Rightarrow>
   (nat \<times> ChannelID option) list \<Rightarrow> amp matrix \<Rightarrow> error + amp matrix" where
  "fill_amplitude w ts n vts rngs offs [] a = Inr a"
| "fill_amplitude w ts n vts rngs offs ((idx, None) # rest) a =
     fill_amplitude w ts n vts rngs offs rest a"
| "fill_amplitude w ts n vts rngs offs ((idx, Some chan) # rest) a =
     (case tuple_get vts idx of Inl e \<Rightarrow> Inl e | Inr vt \<Rightarrow>
      (case tuple_get rngs idx of Inl e \<Rightarrow> Inl e | Inr rng \<Rightarrow>
       (case tuple_get offs idx of Inl e \<Rightarrow> Inl e | Inr off \<Rightarrow>
        (case volt_to_amp (vt (get_sampled w chan ts)) rng off of Inl e \<Rightarrow> Inl e | Inr col \<Rightarrow>
         (case assign_column a n idx col of Inl e \<Rightarrow> Inl e | Inr a' \<Rightarrow>
            fill_amplitude w ts n vts rngs offs rest a')))))"

text \<open>The loop over \<^verbatim>\<open>enumerate(markers)\<close> that fills the marker array.\<close>

fun fill_marker ::
  "Waveform \<Rightarrow> real list \<Rightarrow> nat \<Rightarrow> (nat \<times> ChannelID option) list \<Rightarrow> 8 word matrix \<Rightarrow>
   error + 8 word matrix" where
  "fill_marker w ts n [] a = Inr a"
| "fill_marker w ts n ((idx, None) # rest) a = fill_marker w ts n rest a"
| "fill_marker w ts n ((idx, Some marker) # rest) a =
     (case assign_column a n idx (map (\<lambda>v. of_bool (v \<noteq> 0)) (get_sampled w marker ts)) of
        Inl e \<Rightarrow> Inl e
      | Inr a' \<Rightarrow> fill_marker w ts n rest a')"

text \<open>
  \<^verbatim>\<open>register\<close>, first half: the block under \<^verbatim>\<open>if np.any([chan is not None ...])\<close>, which
  yields \<^verbatim>\<open>wave_name\<close>.
\<close>

definition register_wave ::
  "calc_hash \<Rightarrow> wm_state \<Rightarrow> Waveform \<Rightarrow> real list \<Rightarrow> nat \<Rightarrow> ChannelID option list \<Rightarrow>
   transformation list \<Rightarrow> real list \<Rightarrow> real list \<Rightarrow> bool \<Rightarrow> (error + string option) \<times> wm_state" where
  "register_wave H s w ts n chans vts rngs offs ow =
     (if list_ex (\<lambda>chan. chan \<noteq> None) chans then
        (case fill_amplitude w ts n vts rngs offs (enumerate_list chans)
                (np_zeros (Amp 0) n (length chans)) of
           Inl e \<Rightarrow> (Inl e, s)
         | Inr amplitude \<Rightarrow>
            (let amplitude_hash = H (Float64 amplitude);
                 (wave_name, s1) =
                    (case wave_by_data s amplitude_hash of
                       Some nm \<Rightarrow> (nm, s)
                     | None \<Rightarrow>
                        (generate_wave_name s amplitude_hash,
                         s\<lparr>wave_by_data :=
                             (wave_by_data s)(amplitude_hash \<mapsto> generate_wave_name s amplitude_hash)\<rparr>))
             in if ow \<or> wave_dir s1 (full_file_path s1 wave_name) = None then
                  (case to_file s1 wave_name (Float64 amplitude) ''%f'' ow of
                     (Inl e, s2) \<Rightarrow> (Inl e, s2)
                   | (Inr u, s2) \<Rightarrow> (Inr (Some wave_name), s2))
                else (Inr (Some wave_name), s1)))
      else (Inr None, s))"

text \<open>
  \<^verbatim>\<open>register\<close>, second half: the block under \<^verbatim>\<open>if np.any([marker is not None ...])\<close>,
  which yields \<^verbatim>\<open>marker_name\<close>. The marker array has \<^verbatim>\<open>number_of_channels = len(channels)\<close>
  columns.
\<close>

definition register_marker ::
  "calc_hash \<Rightarrow> wm_state \<Rightarrow> Waveform \<Rightarrow> real list \<Rightarrow> nat \<Rightarrow> nat \<Rightarrow> ChannelID option list \<Rightarrow>
   bool \<Rightarrow> (error + string option) \<times> wm_state" where
  "register_marker H s w ts n number_of_chans mrks ow =
     (if list_ex (\<lambda>marker. marker \<noteq> None) mrks then
        (case fill_marker w ts n (enumerate_list mrks) (np_zeros 0 n number_of_chans) of
           Inl e \<Rightarrow> (Inl e, s)
         | Inr marker_output \<Rightarrow>
            (let marker_hash = H (UInt8 marker_output);
                 (marker_name, s1) =
                    (case marker_by_data s marker_hash of
                       Some nm \<Rightarrow> (nm, s)
                     | None \<Rightarrow>
                        (generate_marker_name s marker_hash,
                         s\<lparr>marker_by_data :=
                             (marker_by_data s)(marker_hash \<mapsto> generate_marker_name s marker_hash)\<rparr>))
             in if ow \<or> wave_dir s1 (full_file_path s1 marker_name) = None then
                  (case to_file s1 marker_name (UInt8 marker_output) ''%d'' ow of
                     (Inl e, s2) \<Rightarrow> (Inl e, s2)
                   | (Inr u, s2) \<Rightarrow> (Inr (Some marker_name), s2))
                else (Inr (Some marker_name), s1)))
      else (Inr None, s))"

text \<open>
  \<^verbatim>\<open>HDAWGWaveManager.register\<close>: the time axis from the sampler, then the wave block, then
  the marker block; the result is \<^verbatim>\<open>(wave_name, marker_name)\<close>.
\<close>

definition wm_register ::
  "calc_hash \<Rightarrow> wm_state \<Rightarrow> Waveform \<Rightarrow> ChannelID option list \<Rightarrow> ChannelID option list \<Rightarrow>
   transformation list \<Rightarrow> real \<Rightarrow> real list \<Rightarrow> real list \<Rightarrow> bool \<Rightarrow>
   (error + string option \<times> string option) \<times> wm_state" where
  "wm_register H s w chans mrks vts rate rngs offs ow =
     (let (ts, n_samples) = sample_times w rate;
          number_of_chans = length chans
      in case register_wave H s w ts n_samples chans vts rngs offs ow of
           (Inl e, s1) \<Rightarrow> (Inl e, s1)
         | (Inr wave_name, s1) \<Rightarrow>
            (case register_marker H s1 w ts n_samples number_of_chans mrks ow of
               (Inl e, s2) \<Rightarrow> (Inl e, s2)
             | (Inr marker_name, s2) \<Rightarrow> (Inr (wave_name, marker_name), s2)))"

text \<open>
  \<^verbatim>\<open>register_single_channels\<close>: the loop over \<^verbatim>\<open>enumerate(channels)\<close>, with the list
  \<^verbatim>\<open>registered_names\<close> as accumulator. The program tree may hold no waveform at a leaf;
  \<^verbatim>\<open>register\<close> then fails in its first statement, \<^verbatim>\<open>get_sample_times(waveform, ...)\<close>
  (modelled from the spec's sampler contract as the error \<open>AttributeError\<close>).
\<close>

type_synonym registered_name = "string option \<times> string option \<times> nat \<times> ChannelID option"

fun register_single_loop ::
  "calc_hash \<Rightarrow> Waveform option \<Rightarrow> ChannelID option list \<Rightarrow> transformation list \<Rightarrow> real \<Rightarrow>
   real list \<Rightarrow> real list \<Rightarrow> bool \<Rightarrow> (nat \<times> ChannelID option) list \<Rightarrow> wm_state \<Rightarrow>
   registered_name list \<Rightarrow> (error + registered_name list) \<times> wm_state" where
  "register_single_loop H wfm mrks vts rate rngs offs ow [] s registered_names =
     (Inr registered_names, s)"
| "register_single_loop H wfm mrks vts rate rngs offs ow ((idx, channel) # rest) s registered_names =
     (case tuple_get mrks idx of
        Inl e \<Rightarrow> (Inl e, s)
      | Inr marker \<Rightarrow>
         if channel = None \<and> marker = None
         then register_single_loop H wfm mrks vts rate rngs offs ow rest s registered_names
         else (case tuple_get vts idx of
                 Inl e \<Rightarrow> (Inl e, s)
               | Inr vt \<Rightarrow>
                  (case wfm of
                     None \<Rightarrow> (Inl AttributeError, s)
                   | Some w \<Rightarrow>
                      (case wm_register H s w [channel] [marker] [vt] rate rngs offs ow of
                         (Inl e, s') \<Rightarrow> (Inl e, s')
                       | (Inr (wave_name, marker_name), s') \<Rightarrow>
                           register_single_loop H wfm mrks vts rate rngs offs ow rest s'
                             (registered_names @ [(wave_name, marker_name, idx + 1, channel)])))))"

definition register_single_channels ::
  "calc_hash \<Rightarrow> wm_state \<Rightarrow> Waveform option \<Rightarrow> ChannelID option list \<Rightarrow> ChannelID option list \<Rightarrow>
   transformation list \<Rightarrow> real \<Rightarrow> real list \<Rightarrow> real list \<Rightarrow> bool \<Rightarrow>
   (error + registered_name list) \<times> wm_state" where
  "register_single_channels H s wfm chans mrks vts rate rngs offs ow =
     register_single_loop H wfm mrks vts rate rngs offs ow (enumerate_list chans) s []"

section \<open>Text\<close>

text \<open>
  A Python string is a list of its code points, each below 256. \<^verbatim>\<open>text.replace(old, new)\<close>
  replaces the occurrences of \<open>old\<close> from left to right, without overlap; for the empty
  \<open>old\<close> it puts \<open>new\<close> before every character and at the end.
\<close>

function replace :: "string \<Rightarrow> string \<Rightarrow> string \<Rightarrow> string" where
  "replace old new [] = (if old = [] then new else [])"
| "replace old new (c # cs) =
     (if old = [] then new @ c # replace old new cs
      else if prefix old (c # cs) then new @ replace old new (drop (length old) (c # cs))
      else c # replace old new cs)"
  by pat_completeness auto
termination
  by (relation "measure (\<lambda>(old, new, text). length text)") (auto simp: neq_Nil_conv)

text \<open>
  The characters at which \<^verbatim>\<open>str.splitlines\<close> ends a line, and the characters that
  \<^verbatim>\<open>str.strip\<close> removes (those with \<^verbatim>\<open>str.isspace\<close>), among the code points below 256.
\<close>

definition is_linebreak :: "char \<Rightarrow> bool" where
  "is_linebreak c \<longleftrightarrow>
     c \<in> set [CHR 0x0A, CHR 0x0B, CHR 0x0C, CHR 0x0D, CHR 0x1C, CHR 0x1D, CHR 0x1E, CHR 0x85]"

definition is_space :: "char \<Rightarrow> bool" where
  "is_space c \<longleftrightarrow> is_linebreak c \<or> c \<in> set [CHR 0x09, CHR 0x1F, CHR 0x20, CHR 0xA0]"

text \<open>
  \<^verbatim>\<open>text.splitlines(True)\<close>: the lines with their line ends, where a carriage return followed
  by a line feed is one line end. The first argument is the line read so far.
\<close>

fun splitlines_from :: "string \<Rightarrow> string \<Rightarrow> string list" where
  "splitlines_from cur [] = (if cur = [] then [] else [cur])"
| "splitlines_from cur [c] = [cur @ [c]]"
| "splitlines_from cur (c # d # cs) =
     (if c = CHR 0x0D \<and> d = CHR 0x0A then (cur @ [c, d]) # splitlines_from [] cs
      else if is_linebreak c then (cur @ [c]) # splitlines_from [] (d # cs)
      else splitlines_from (cur @ [c]) (d # cs))"

definition splitlines :: "string \<Rightarrow> string list" where
  "splitlines text = splitlines_from [] text"

text \<open>
  \<^verbatim>\<open>textwrap.indent(text, prefix)\<close>: the prefix goes before every line that does not consist
  of white space only.
\<close>

definition indent :: "string \<Rightarrow> string \<Rightarrow> string" where
  "indent text pre =
     concat (map (\<lambda>line. if list_all is_space line then line else pre @ line) (splitlines text))"

definition dquote :: string where
  "dquote = [CHR 0x22]"

section \<open>HDAWGProgramManager\<close>

subsection \<open>Programs\<close>

text \<open>
  Modelled from the spec: the class \<^verbatim>\<open>Loop\<close> is imported from a module that is not part of
  the sources at hand. The spec's ProgramNode is either a leaf, which holds a waveform and has
  no children, or an internal node with ordered children and no waveform, and each node
  carries an integer repetition count. The translator reads \<^verbatim>\<open>prog.repetition_count\<close>,
  \<^verbatim>\<open>prog.is_leaf()\<close>, \<^verbatim>\<open>prog.waveform\<close> and \<^verbatim>\<open>prog.children\<close>; a node is a leaf when it has no
  children.
\<close>

datatype Loop =
  Loop (repetition_count: int) (waveform: "Waveform option") (children: "Loop list")

definition is_leaf :: "Loop \<Rightarrow> bool" where
  "is_leaf prog \<longleftrightarrow> children prog = []"

record ProgramEntry =
  program :: Loop
  index :: int
  seqc_rep :: string

text \<open>
  The attributes of the program manager. \<open>known_programs\<close> is the \<^verbatim>\<open>OrderedDict\<close>: the items
  in insertion order, with pairwise distinct keys. The wave manager, which the source reaches
  through a weak reference, is passed next to this state.
\<close>

record pm_state =
  known_programs :: "(string \<times> ProgramEntry) list"
  number_of_channels :: nat
  channels :: "ChannelID option list"
  markers :: "ChannelID option list"
  voltage_transformation :: "transformation list"
  sample_rate :: real
  overwrite :: bool
  output_range :: "real list"
  output_offset :: "real list"

text \<open>\<^verbatim>\<open>d[key] = value\<close> on an ordered dictionary: a known key keeps its place.\<close>

fun od_set :: "'k \<Rightarrow> 'v \<Rightarrow> ('k \<times> 'v) list \<Rightarrow> ('k \<times> 'v) list" where
  "od_set k v [] = [(k, v)]"
| "od_set k v ((k', v') # d) = (if k' = k then (k, v) # d else (k', v') # od_set k v d)"

text \<open>\<^verbatim>\<open>remove(name)\<close>, that is \<^verbatim>\<open>_known_programs.pop(name)\<close>, and \<^verbatim>\<open>clear()\<close>.\<close>

definition pm_remove :: "pm_state \<Rightarrow> string \<Rightarrow> (error + unit) \<times> pm_state" where
  "pm_remove pm name =
     (if name \<in> set (map fst (known_programs pm))
      then (Inr (), pm\<lparr>known_programs := filter (\<lambda>item. fst item \<noteq> name) (known_programs pm)\<rparr>)
      else (Inl (KeyError name), pm))"

definition pm_clear :: "pm_state \<Rightarrow> pm_state" where
  "pm_clear pm = pm\<lparr>known_programs := []\<rparr>"

text \<open>\<^verbatim>\<open>programs()\<close> and \<^verbatim>\<open>name_to_index(name)\<close>.\<close>

definition programs :: "pm_state \<Rightarrow> string set" where
  "programs pm = set (map fst (known_programs pm))"

definition name_to_index :: "pm_state \<Rightarrow> string \<Rightarrow> error + int" where
  "name_to_index pm name =
     (case map_of (known_programs pm) name of
        None \<Rightarrow> Inl (KeyError name)
      | Some entry \<Rightarrow> Inr (index entry))"

text \<open>
  \<^verbatim>\<open>generate_program_index()\<close>: \<^verbatim>\<open>next(reversed(d))\<close> is the key of the last item, and the
  entry under that key is the last item's value, the keys being distinct.
\<close>

definition generate_program_index :: "pm_state \<Rightarrow> int" where
  "generate_program_index pm =
     (if known_programs pm \<noteq> [] then
        (let last_index = index (snd (last (known_programs pm))) in last_index + 1)
      else 1)"

subsection \<open>Translation to seqc\<close>

text \<open>
  The body of the loop of \<^verbatim>\<open>waveform_to_seqc\<close> over \<^verbatim>\<open>registered_names\<close>: the text appended
  to \<^verbatim>\<open>www\<close>, or nothing where the source continues with the next entry.
\<close>

fun combined_name :: "registered_name \<Rightarrow> string option" where
  "combined_name (Some wf_name, Some mk_name, channel_idx, qupulse_channel_name) =
     Some (str_int (int channel_idx) @ '','' @
           ''add('' @ dquote @ wf_name @ dquote @ '', '' @ dquote @ mk_name @ dquote @ '')'')"
| "combined_name (None, Some mk_name, channel_idx, qupulse_channel_name) =
     Some (str_int (int channel_idx) @ '','' @ dquote @ mk_name @ dquote)"
| "combined_name (Some wf_name, None, channel_idx, qupulse_channel_name) =
     Some (str_int (int channel_idx) @ '','' @ dquote @ wf_name @ dquote)"
| "combined_name (None, None, channel_idx, qupulse_channel_name) = None"

text \<open>\<^verbatim>\<open>waveform_to_seqc(waveform)\<close>, with the configuration read from the manager.\<close>

definition waveform_to_seqc ::
  "calc_hash \<Rightarrow> pm_state \<Rightarrow> Waveform option \<Rightarrow> wm_state \<Rightarrow> (error + string) \<times> wm_state" where
  "waveform_to_seqc H pm wfm wm =
     (case register_single_channels H wm wfm (channels pm) (markers pm)
             (voltage_transformation pm) (sample_rate pm) (output_range pm) (output_offset pm)
             (overwrite pm) of
        (Inl e, wm') \<Rightarrow> (Inl e, wm')
      | (Inr registered_names, wm') \<Rightarrow>
          (let www = List.map_filter combined_name registered_names
           in if www = [] then (Inr [], wm')
              else (Inr (''playWave('' @ join '', '' www @ '');''), wm')))"

text \<open>
  \<^verbatim>\<open>program_to_seqc(prog)\<close>: the list of the lines that the generator yields, or the
  exception that ends it. \<open>template\<close> is \<^verbatim>\<open>template.format\<close>, and \<open>children_to_seqc\<close> is the
  loop over \<^verbatim>\<open>prog.children\<close>.
\<close>

fun program_to_seqc ::
  "calc_hash \<Rightarrow> pm_state \<Rightarrow> Loop \<Rightarrow> wm_state \<Rightarrow> (error + string list) \<times> wm_state"
and children_to_seqc ::
  "calc_hash \<Rightarrow> pm_state \<Rightarrow> (string \<Rightarrow> string) \<Rightarrow> Loop list \<Rightarrow> wm_state \<Rightarrow>
   (error + string list) \<times> wm_state" where
  "program_to_seqc H pm (Loop rc wfm cs) wm =
     (let template = (if rc > 1 then (\<lambda>line. ''  '' @ line) else (\<lambda>line. line));
          opening = (if rc > 1 then [''repeat('' @ str_int rc @ '') {''] else []);
          closing = (if rc > 1 then [''}''] else [])
      in case (if cs = [] then
                 (case waveform_to_seqc H pm wfm wm of
                    (Inl e, wm') \<Rightarrow> (Inl e, wm')
                  | (Inr command, wm') \<Rightarrow> (Inr [template command], wm'))
               else children_to_seqc H pm template cs wm) of
           (Inl e, wm') \<Rightarrow> (Inl e, wm')
         | (Inr body, wm') \<Rightarrow> (Inr (opening @ body @ closing), wm'))"
| "children_to_seqc H pm template [] wm = (Inr [], wm)"
| "children_to_seqc H pm template (child # rest) wm =
     (case program_to_seqc H pm child wm of
        (Inl e, wm') \<Rightarrow> (Inl e, wm')
      | (Inr child_lines, wm') \<Rightarrow>
          (case children_to_seqc H pm template rest wm' of
             (Inl e, wm'') \<Rightarrow> (Inl e, wm'')
           | (Inr rest_lines, wm'') \<Rightarrow> (Inr (map template child_lines @ rest_lines), wm'')))"

subsection \<open>Registration\<close>

text \<open>
  \<^verbatim>\<open>HDAWGProgramManager.register\<close>: the configuration is stored first; the entry is stored
  only when the translation has not raised.
\<close>

definition pm_register ::
  "calc_hash \<Rightarrow> pm_state \<times> wm_state \<Rightarrow> string \<Rightarrow> Loop \<Rightarrow> ChannelID option list \<Rightarrow>
   ChannelID option list \<Rightarrow> transformation list \<Rightarrow> real \<Rightarrow> real list \<Rightarrow> real list \<Rightarrow> bool \<Rightarrow>
   (error + unit) \<times> (pm_state \<times> wm_state)" where
  "pm_register H st name prog chans mrks vts rate rngs offs ow =
     (let pm = (fst st)\<lparr>channels := chans, markers := mrks, voltage_transformation := vts,
                        sample_rate := rate, overwrite := ow, output_range := rngs,
                        output_offset := offs\<rparr>
      in case program_to_seqc H pm prog (snd st) of
           (Inl e, wm') \<Rightarrow> (Inl e, (pm, wm'))
         | (Inr seqc_gen, wm') \<Rightarrow>
             (Inr (),
              (pm\<lparr>known_programs :=
                    od_set name
                      \<lparr>program = prog, index = generate_program_index pm,
                       seqc_rep = join ''\<newline>'' seqc_gen\<rparr>
                      (known_programs pm)\<rparr>,
               wm')))"

subsection \<open>Assembly of the sequencer program\<close>

text \<open>
  \<^verbatim>\<open>sequencer_template\<close>: the value of \<^verbatim>\<open>textwrap.dedent\<close> on the literal of the source,
  that is the literal without the eight blanks that start each of its lines, and with its
  lines of blanks emptied.
\<close>

definition sequencer_template :: string where
  "sequencer_template =
     ''//////////  qupulse sequence (_upload_time_) //////////\<newline>'' @
     ''\<newline>'' @
     ''const PROG_SEL = 0; // User register for switching current program.\<newline>'' @
     ''\<newline>'' @
     ''// Start of analog waveform definitions.\<newline>'' @
     ''wave idle = zeros(16); // Default idle waveform.\<newline>'' @
     ''_analog_waveform_block_\<newline>'' @
     ''\<newline>'' @
     ''// Start of marker waveform definitions.\<newline>'' @
     ''_marker_waveform_block_\<newline>'' @
     ''\<newline>'' @
     ''// Arm program switch.\<newline>'' @
     ''var prog_sel = getUserReg(PROG_SEL);\<newline>'' @
     ''\<newline>'' @
     ''// Main loop.\<newline>'' @
     ''while(true){\<newline>'' @
     ''    switch(prog_sel){\<newline>'' @
     ''_case_block_\<newline>'' @
     ''        default:\<newline>'' @
     ''            playWave(1, idle);\<newline>'' @
     ''    }\<newline>'' @
     ''}\<newline>''"

text \<open>\<^verbatim>\<open>case_wrap_program(prog, prog_name, indent)\<close>.\<close>

definition case_wrap_program :: "ProgramEntry \<Rightarrow> string \<Rightarrow> nat \<Rightarrow> string" where
  "case_wrap_program prog prog_name ind =
     (let indented_seqc =
            indent (seqc_rep prog @ ''\<newline>// end of '' @ prog_name) (replicate 4 (CHR '' ''));
          case_str = ''case '' @ str_int (index prog) @ '': // Program name: '' @ prog_name @
                     ''\<newline>'' @ indented_seqc
      in indent case_str (replicate ind (CHR '' '')))"

text \<open>\<^verbatim>\<open>assemble_case_block()\<close>.\<close>

definition assemble_case_block :: "pm_state \<Rightarrow> string" where
  "assemble_case_block pm =
     join ''\<newline>'' (map (\<lambda>(name, entry). case_wrap_program entry name 8) (known_programs pm))"

text \<open>
  \<^verbatim>\<open>assemble_sequencer_program()\<close>. Its first argument is the value of
  \<^verbatim>\<open>time.strftime('%c')\<close>, the local date and time as text.
\<close>

definition assemble_sequencer_program :: "string \<Rightarrow> pm_state \<Rightarrow> string" where
  "assemble_sequencer_program upload_time pm =
     (let awg_sequence = replace ''_upload_time_'' upload_time sequencer_template;
          awg_sequence = replace ''_analog_waveform_block_'' [] awg_sequence;
          awg_sequence = replace ''_marker_waveform_block_'' [] awg_sequence
      in replace ''_case_block_'' (assemble_case_block pm) awg_sequence)"

subsection \<open>Sequences of calls\<close>

text \<open>
  The calls a client makes on the registry, and their effect one after the other. A call
  that raises leaves the state it has reached, and the client goes on with the next call.
\<close>

record configuration =
  cfg_channels :: "ChannelID option list"
  cfg_markers :: "ChannelID option list"
  cfg_voltage_transformation :: "transformation list"
  cfg_sample_rate :: real
  cfg_output_range :: "real list"
  cfg_output_offset :: "real list"
  cfg_overwrite :: bool

datatype call = Register string Loop configuration | Remove string | Clear

fun apply_call ::
  "calc_hash \<Rightarrow> call \<Rightarrow> pm_state \<times> wm_state \<Rightarrow> (error + unit) \<times> (pm_state \<times> wm_state)" where
  "apply_call H (Register name prog cfg) st =
     pm_register H st name prog (cfg_channels cfg) (cfg_markers cfg)
       (cfg_voltage_transformation cfg) (cfg_sample_rate cfg) (cfg_output_range cfg)
       (cfg_output_offset cfg) (cfg_overwrite cfg)"
| "apply_call H (Remove name) st =
     (case pm_remove (fst st) name of (r, pm') \<Rightarrow> (r, (pm', snd st)))"
| "apply_call H Clear st = (Inr (), (pm_clear (fst st), snd st))"

fun run_calls ::
  "calc_hash \<Rightarrow> call list \<Rightarrow> pm_state \<times> wm_state \<Rightarrow>
   (error + unit) list \<times> (pm_state \<times> wm_state)" where
  "run_calls H [] st = ([], st)"
| "run_calls H (c # cs) st =
     (case apply_call H c st of
        (r, st') \<Rightarrow> (case run_calls H cs st' of (rs, st'') \<Rightarrow> (r # rs, st'')))"

section \<open>Notions used in the statements\<close>

text \<open>
  \<^verbatim>\<open>HDAWGWaveManager.__init__(user_dir, awg_identifier)\<close> on a wave directory that exists and
  holds no file: both dictionaries are empty and \<^verbatim>\<open>clear()\<close> finds nothing to delete.
\<close>

definition wm_init :: "string \<Rightarrow> wm_state" where
  "wm_init awg_identifier =
     \<lparr>wave_by_data = Map.empty, marker_by_data = Map.empty, file_type = ''csv'',
      awg_prefix = awg_identifier, wave_dir = Map.empty, savetxt_log = []\<rparr>"

text \<open>
  A waveform that samples to \<open>vs\<close> on every channel, at the times \<open>0, 1, ...\<close>; and a hash
  function that gives every array the same hash.
\<close>

definition constant_waveform :: "real list \<Rightarrow> Waveform" where
  "constant_waveform vs =
     \<lparr>sample_times = (\<lambda>rate. (map real [0 ..< length vs], length vs)),
      get_sampled = (\<lambda>chan ts. vs)\<rparr>"

definition constant_hash :: "int \<Rightarrow> calc_hash" where
  "constant_hash h d = h"

text \<open>
  The samples of slot \<open>i\<close>, assigned to the channel \<open>c\<close>, after the slot's voltage
  transformation.
\<close>

definition transformed ::
  "Waveform \<Rightarrow> real list \<Rightarrow> transformation list \<Rightarrow> nat \<Rightarrow> ChannelID \<Rightarrow> real list" where
  "transformed w ts vts i c = (vts ! i) (get_sampled w c ts)"

text \<open>Some sample of slot \<open>i\<close> lies outside the slot's range around the slot's offset.\<close>

definition offending ::
  "Waveform \<Rightarrow> real list \<Rightarrow> transformation list \<Rightarrow> real list \<Rightarrow> real list \<Rightarrow> nat \<Rightarrow> ChannelID \<Rightarrow>
   bool" where
  "offending w ts vts rngs offs i c =
     list_ex (\<lambda>v. \<bar>v - offs ! i\<bar> > rngs ! i) (transformed w ts vts i c)"

text \<open>
  Slot \<open>i\<close> of an array with \<open>k\<close> columns can be filled without an error of indexing or of
  shape: the three tuples reach to \<open>i\<close>, and the transformed samples have \<open>n\<close> entries or one.
\<close>

definition slot_ok ::
  "Waveform \<Rightarrow> real list \<Rightarrow> nat \<Rightarrow> transformation list \<Rightarrow> real list \<Rightarrow> real list \<Rightarrow> nat \<Rightarrow> nat \<Rightarrow>
   ChannelID \<Rightarrow> bool" where
  "slot_ok w ts n vts rngs offs k i c \<longleftrightarrow>
     i < length vts \<and> i < length rngs \<and> i < length offs \<and> i < k \<and>
     (length (transformed w ts vts i c) = n \<or> length (transformed w ts vts i c) = 1)"

text \<open>
  \<open>col\<close> is the column that slot \<open>i\<close> receives: the scaled samples of the slot, broadcast to
  \<open>n\<close> rows when there is one of them.
\<close>

definition amp_column ::
  "Waveform \<Rightarrow> real list \<Rightarrow> nat \<Rightarrow> transformation list \<Rightarrow> real list \<Rightarrow> real list \<Rightarrow> nat \<Rightarrow>
   ChannelID \<Rightarrow> amp list \<Rightarrow> bool" where
  "amp_column w ts n vts rngs offs i c col \<longleftrightarrow>
     (case volt_to_amp (transformed w ts vts i c) (rngs ! i) (offs ! i) of
        Inl e \<Rightarrow> False
      | Inr scaled \<Rightarrow>
          if length scaled = n then col = scaled
          else length scaled = 1 \<and> col = replicate n (hd scaled))"

text \<open>The number of calls of \<^verbatim>\<open>np.savetxt\<close> on the file \<open>path\<close> in a log.\<close>

definition writes_to :: "string \<Rightarrow> (string \<times> ndarray \<times> string) list \<Rightarrow> nat" where
  "writes_to path entries = length (filter (\<lambda>entry. fst entry = path) entries)"


text \<open>
  The shape of an amplitude array of \<^verbatim>\<open>register\<close> for \<open>n\<close> samples: one column for every slot
  of \<open>chans\<close>, each of \<open>n\<close> rows; the column of an empty slot is zero, and the column of a
  non-empty slot whose range is not zero holds numbers of magnitude at most one. And the shape
  of a marker array of \<open>k\<close> columns: each of \<open>n\<close> rows, holding zeros and ones, and zero where
  the slot has no marker.
\<close>

definition wave_array_shape :: "nat \<Rightarrow> ChannelID option list \<Rightarrow> real list \<Rightarrow> amp matrix \<Rightarrow> bool" where
  "wave_array_shape n chans rngs a \<longleftrightarrow>
     length a = length chans \<and>
     (\<forall>i<length chans.
        length (a ! i) = n \<and>
        (chans ! i = None \<longrightarrow> a ! i = replicate n (Amp 0)) \<and>
        (chans ! i \<noteq> None \<longrightarrow> rngs ! i \<noteq> 0 \<longrightarrow> (\<forall>x\<in>set (a ! i). \<exists>y. x = Amp y \<and> \<bar>y\<bar> \<le> 1)))"

definition marker_array_shape :: "nat \<Rightarrow> nat \<Rightarrow> ChannelID option list \<Rightarrow> 8 word matrix \<Rightarrow> bool" where
  "marker_array_shape n k mrks b \<longleftrightarrow>
     length b = k \<and>
     (\<forall>i<k.
        length (b ! i) = n \<and>
        (\<forall>x\<in>set (b ! i). x = 0 \<or> x = 1) \<and>
        ((length mrks \<le> i \<or> mrks ! i = None) \<longrightarrow> b ! i = replicate n 0))"


text \<open>The number of non-empty slots.\<close>

definition active_slots :: "ChannelID option list \<Rightarrow> nat" where
  "active_slots chans = length (filter (\<lambda>chan. chan \<noteq> None) chans)"


text \<open>
  The sample content of a call of \<^verbatim>\<open>register\<close>: the amplitude array that the call computes
  (or the exception that ends the computation), if some channel slot is not empty; and
  likewise its marker array.
\<close>

definition wave_content ::
  "Waveform \<Rightarrow> real \<Rightarrow> ChannelID option list \<Rightarrow> transformation list \<Rightarrow> real list \<Rightarrow> real list \<Rightarrow>
   (error + amp matrix) option" where
  "wave_content w rate chans vts rngs offs =
     (case sample_times w rate of
        (ts, n) \<Rightarrow>
          if list_ex (\<lambda>chan. chan \<noteq> None) chans
          then Some (fill_amplitude w ts n vts rngs offs (enumerate_list chans)
                       (np_zeros (Amp 0) n (length chans)))
          else None)"

definition marker_content ::
  "Waveform \<Rightarrow> real \<Rightarrow> ChannelID option list \<Rightarrow> ChannelID option list \<Rightarrow>
   (error + 8 word matrix) option" where
  "marker_content w rate chans mrks =
     (case sample_times w rate of
        (ts, n) \<Rightarrow>
          if list_ex (\<lambda>marker. marker \<noteq> None) mrks
          then Some (fill_marker w ts n (enumerate_list mrks) (np_zeros 0 n (length chans)))
          else None)"


text \<open>
  The entries \<open>names\<close> of \<^verbatim>\<open>registered_names\<close> follow the slots \<open>es\<close> (pairs of index and
  channel): there is one entry, in order, for every slot that has a channel or a marker; it
  carries the slot's index counted from one and the slot's channel, a wave name exactly when
  the slot has a channel, and a marker name exactly when the slot has a marker.
\<close>

definition slot_faithful ::
  "ChannelID option list \<Rightarrow> (nat \<times> ChannelID option) list \<Rightarrow> registered_name list \<Rightarrow> bool" where
  "slot_faithful mrks es names \<longleftrightarrow>
     map (\<lambda>(wf_name, mk_name, k, c). k) names =
       map (\<lambda>(i, ch). Suc i) (filter (\<lambda>(i, ch). ch \<noteq> None \<or> mrks ! i \<noteq> None) es) \<and>
     (\<forall>(wf_name, mk_name, k, c)\<in>set names.
        0 < k \<and> (k - 1, c) \<in> set es \<and>
        (wf_name \<noteq> None \<longleftrightarrow> c \<noteq> None) \<and> (mk_name \<noteq> None \<longleftrightarrow> mrks ! (k - 1) \<noteq> None))"


text \<open>
  What a hardware channel contributes to the play instruction: its index, a comma, and
  \<open>add(wave, marker)\<close> of the two quoted names when it has both, the one quoted name when it has
  one.
\<close>

fun operand :: "registered_name \<Rightarrow> string" where
  "operand (Some wf_name, Some mk_name, k, c) =
     str_int (int k) @ '','' @ ''add('' @ dquote @ wf_name @ dquote @ '', '' @ dquote @ mk_name @ dquote @ '')''"
| "operand (Some wf_name, None, k, c) = str_int (int k) @ '','' @ dquote @ wf_name @ dquote"
| "operand (None, Some mk_name, k, c) = str_int (int k) @ '','' @ dquote @ mk_name @ dquote"
| "operand (None, None, k, c) = []"


text \<open>
  A program manager with no program, configured for three hardware channels: the first has a
  channel and a marker, the second has neither, the third has a marker only.
\<close>

definition example_pm :: pm_state where
  "example_pm =
     \<lparr>known_programs = [], number_of_channels = 3,
      channels = [Some (ChanStr ''A''), None, None],
      markers = [Some (ChanStr ''M''), None, Some (ChanStr ''N'')],
      voltage_transformation = [id, id, id], sample_rate = 1, overwrite = False,
      output_range = [1, 1, 1], output_offset = [0, 0, 0]\<rparr>"


text \<open>
  The indices of the registered programs in insertion order, alone and with the names; and
  the condition that no \<^verbatim>\<open>register\<close> call of a sequence uses a name that is registered at the
  moment of the call (what the upload layer checks when it is not forced).
\<close>

definition indices :: "pm_state \<Rightarrow> int list" where
  "indices pm = map (\<lambda>item. index (snd item)) (known_programs pm)"

definition name_indices :: "pm_state \<Rightarrow> (string \<times> int) list" where
  "name_indices pm = map (\<lambda>item. (fst item, index (snd item))) (known_programs pm)"

fun fresh_calls :: "calc_hash \<Rightarrow> call list \<Rightarrow> pm_state \<times> wm_state \<Rightarrow> bool" where
  "fresh_calls H [] st = True"
| "fresh_calls H (c # cs) st =
     ((case c of Register name prog cfg \<Rightarrow> name \<notin> programs (fst st) | _ \<Rightarrow> True) \<and>
      fresh_calls H cs (snd (apply_call H c st)))"


text \<open>The \<^verbatim>\<open>register\<close> call for a name, a program and a configuration.\<close>

definition register_call :: "string \<times> Loop \<times> configuration \<Rightarrow> call" where
  "register_call reg = (case reg of (name, prog, cfg) \<Rightarrow> Register name prog cfg)"


text \<open>A configuration with one hardware channel, and a program of one leaf.\<close>

definition example_cfg :: configuration where
  "example_cfg =
     \<lparr>cfg_channels = [Some (ChanStr ''A'')], cfg_markers = [None],
      cfg_voltage_transformation = [id], cfg_sample_rate = 1, cfg_output_range = [1],
      cfg_output_offset = [0], cfg_overwrite = False\<rparr>"

definition example_leaf :: Loop where
  "example_leaf = Loop 1 (Some (constant_waveform [1/2])) []"


section \<open>Properties of the waveform cache\<close>

subsection \<open>Auxiliary facts\<close>

lemma np_max_Max: "xs \<noteq> [] \<Longrightarrow> np_max xs = Max (set xs)"
proof -
  assume "xs \<noteq> []"
  then obtain x ys where xs: "xs = x # ys" by (cases xs) auto
  show ?thesis using Max.set_eq_fold [of x ys] by (simp add: np_max_def xs)
qed

lemma assign_column_length: "assign_column a n idx col = Inr a' \<Longrightarrow> length a' = length a"
  by (auto simp: assign_column_def split: if_splits)

lemma fill_amplitude_Some:
  "fill_amplitude w ts n vts rngs offs ((idx, Some chan) # rest) a =
     (if idx < length vts \<and> idx < length rngs \<and> idx < length offs then
        (case volt_to_amp ((vts ! idx) (get_sampled w chan ts)) (rngs ! idx) (offs ! idx) of
           Inl e \<Rightarrow> Inl e
         | Inr col \<Rightarrow>
            (case assign_column a n idx col of
               Inl e \<Rightarrow> Inl e
             | Inr a' \<Rightarrow> fill_amplitude w ts n vts rngs offs rest a'))
      else Inl IndexError)"
  by (simp add: tuple_get_def)

lemma volt_to_amp_error:
  "volt_to_amp volt rng off = Inl e \<longleftrightarrow>
     list_ex (\<lambda>v. \<bar>v - off\<bar> > rng) volt \<and> e = HDAWGValueError (np_max (map (\<lambda>v. \<bar>v - off\<bar>) volt)) rng"
  by (auto simp: volt_to_amp_def)

lemma assign_column_error:
  "assign_column a n idx col = Inl e \<Longrightarrow> e = IndexError \<or> e = ValueError"
  by (auto simp: assign_column_def split: if_splits)

lemma fill_amplitude_error:
  "fill_amplitude w ts n vts rngs offs es a = Inl (HDAWGValueError m r) \<Longrightarrow>
   \<exists>i c. (i, Some c) \<in> set es \<and> offending w ts vts rngs offs i c \<and> r = rngs ! i \<and>
      m = np_max (map (\<lambda>v. \<bar>v - offs ! i\<bar>) ((vts ! i) (get_sampled w c ts)))"
proof (induction es arbitrary: a)
  case Nil
  then show ?case by simp
next
  case (Cons x es)
  obtain idx ch where x: "x = (idx, ch)" by (cases x)
  show ?case
  proof (cases ch)
    case None
    with Cons x show ?thesis by auto
  next
    case (Some chan)
    let ?v = "volt_to_amp ((vts ! idx) (get_sampled w chan ts)) (rngs ! idx) (offs ! idx)"
    from Cons.prems have ok: "idx < length vts \<and> idx < length rngs \<and> idx < length offs"
      unfolding x Some fill_amplitude_Some by (auto split: if_splits)
    show ?thesis
    proof (cases ?v)
      case (Inl e)
      with Cons.prems ok have "e = HDAWGValueError m r"
        unfolding x Some fill_amplitude_Some by simp
      with Inl show ?thesis
        unfolding x Some by (auto simp: volt_to_amp_error offending_def transformed_def)
    next
      case (Inr col)
      show ?thesis
      proof (cases "assign_column a n idx col")
        case (Inl e)
        with Cons.prems ok Inr assign_column_error [OF Inl] show ?thesis
          unfolding x Some fill_amplitude_Some by auto
      next
        case (Inr a')
        with Cons.prems ok \<open>?v = Inr col\<close>
        have "fill_amplitude w ts n vts rngs offs es a' = Inl (HDAWGValueError m r)"
          unfolding x Some fill_amplitude_Some by simp
        from Cons.IH [OF this] show ?thesis by auto
      qed
    qed
  qed
qed

lemma fill_amplitude_raises:
  "\<forall>(i, ch) \<in> set es. \<forall>c. ch = Some c \<longrightarrow> slot_ok w ts n vts rngs offs (length a) i c \<Longrightarrow>
   \<exists>i c. (i, Some c) \<in> set es \<and> offending w ts vts rngs offs i c \<Longrightarrow>
   \<exists>m r. fill_amplitude w ts n vts rngs offs es a = Inl (HDAWGValueError m r)"
proof (induction es arbitrary: a)
  case Nil
  then show ?case by simp
next
  case (Cons x es)
  obtain idx ch where x: "x = (idx, ch)" by (cases x)
  show ?case
  proof (cases ch)
    case None
    with Cons x show ?thesis by auto
  next
    case (Some chan)
    let ?v = "volt_to_amp ((vts ! idx) (get_sampled w chan ts)) (rngs ! idx) (offs ! idx)"
    from Cons.prems(1) have ok: "slot_ok w ts n vts rngs offs (length a) idx chan"
      unfolding x Some by simp
    show ?thesis
    proof (cases ?v)
      case (Inl e)
      then obtain m r where "e = HDAWGValueError m r"
        by (auto simp: volt_to_amp_error)
      with Inl ok show ?thesis
        unfolding x Some fill_amplitude_Some by (simp add: slot_ok_def)
    next
      case (Inr col)
      then have len: "length col = length ((vts ! idx) (get_sampled w chan ts))"
        by (auto simp: volt_to_amp_def split: if_splits)
      from Inr have notoff: "\<not> offending w ts vts rngs offs idx chan"
        by (auto simp: volt_to_amp_def offending_def transformed_def split: if_splits)
      from ok len have "\<exists>a'. assign_column a n idx col = Inr a'"
        by (auto simp: assign_column_def slot_ok_def transformed_def)
      then obtain a' where a': "assign_column a n idx col = Inr a'" ..
      have la: "length a' = length a" using assign_column_length [OF a'] .
      have 1: "\<forall>(i, ch) \<in> set es. \<forall>c. ch = Some c \<longrightarrow> slot_ok w ts n vts rngs offs (length a') i c"
        using Cons.prems(1) la by auto
      have 2: "\<exists>i c. (i, Some c) \<in> set es \<and> offending w ts vts rngs offs i c"
        using Cons.prems(2) notoff unfolding x Some by auto
      from Cons.IH [OF 1 2] show ?thesis
        using ok Inr a' unfolding x Some fill_amplitude_Some by (simp add: slot_ok_def)
    qed
  qed
qed


lemma in_enumerate_list: "(i, x) \<in> set (enumerate_list xs) \<longleftrightarrow> i < length xs \<and> xs ! i = x"
proof
  assume "(i, x) \<in> set (enumerate_list xs)"
  then show "i < length xs \<and> xs ! i = x"
    by (auto simp: enumerate_list_def set_zip)
next
  assume "i < length xs \<and> xs ! i = x"
  then have "(i, x) = ([0..<length xs] ! i, xs ! i)" "i < min (length [0..<length xs]) (length xs)"
    by simp_all
  then show "(i, x) \<in> set (enumerate_list xs)"
    unfolding enumerate_list_def set_zip by blast
qed

lemma fill_marker_error:
  "fill_marker w ts n es a = Inl e \<Longrightarrow> e = IndexError \<or> e = ValueError"
proof (induction w ts n es a rule: fill_marker.induct)
  case (3 w ts n idx marker rest a)
  then show ?case
    by (auto split: sum.splits dest: assign_column_error)
qed auto

lemma to_file_error:
  "to_file s name d fmt ow = (Inl e, s') \<Longrightarrow> (\<exists>p. e = HDAWGIOError p) \<and> s' = s"
  by (auto simp: to_file_def Let_def split: if_splits)

lemma register_marker_error:
  "register_marker H s w ts n k mrks ow = (Inl e, s') \<Longrightarrow> \<forall>m r. e \<noteq> HDAWGValueError m r"
  by (auto simp: register_marker_def Let_def split: if_splits sum.splits option.splits prod.splits
           dest: fill_marker_error to_file_error)

lemma register_wave_value_error:
  "register_wave H s w ts n chans vts rngs offs ow = (Inl (HDAWGValueError m r), s') \<longleftrightarrow>
     list_ex (\<lambda>chan. chan \<noteq> None) chans \<and> s' = s \<and>
     fill_amplitude w ts n vts rngs offs (enumerate_list chans) (np_zeros (Amp 0) n (length chans))
       = Inl (HDAWGValueError m r)"
  by (auto simp: register_wave_def Let_def split: if_splits sum.splits option.splits prod.splits
           dest: to_file_error)

lemma wm_register_value_error:
  assumes "sample_times w rate = (ts, n)"
  shows "wm_register H s w chans mrks vts rate rngs offs ow = (Inl (HDAWGValueError m r), s') \<longleftrightarrow>
     s' = s \<and>
     fill_amplitude w ts n vts rngs offs (enumerate_list chans) (np_zeros (Amp 0) n (length chans))
       = Inl (HDAWGValueError m r)"
proof -
  have ex: "list_ex (\<lambda>chan. chan \<noteq> None) chans"
    if "fill_amplitude w ts n vts rngs offs (enumerate_list chans) a = Inl (HDAWGValueError m r)" for a
  proof -
    from fill_amplitude_error [OF that] obtain i c where "i < length chans" "chans ! i = Some c"
      by (auto simp: in_enumerate_list)
    then have "Some c \<in> set chans" using nth_mem [of i chans] by simp
    then show ?thesis unfolding list_ex_iff by blast
  qed
  let ?F = "fill_amplitude w ts n vts rngs offs (enumerate_list chans) (np_zeros (Amp 0) n (length chans))"
  let ?RW = "register_wave H s w ts n chans vts rngs offs ow"
  show ?thesis
  proof
    assume A: "s' = s \<and> ?F = Inl (HDAWGValueError m r)"
    then have F: "?F = Inl (HDAWGValueError m r)" and "s' = s" by simp_all
    from ex [OF F] F have "?RW = (Inl (HDAWGValueError m r), s)"
      by (simp add: register_wave_value_error)
    note this \<open>s' = s\<close>
    then show "wm_register H s w chans mrks vts rate rngs offs ow = (Inl (HDAWGValueError m r), s')"
      by (simp add: wm_register_def assms)
  next
    assume R: "wm_register H s w chans mrks vts rate rngs offs ow = (Inl (HDAWGValueError m r), s')"
    obtain rw s1 where rw: "?RW = (rw, s1)" by (cases ?RW)
    show "s' = s \<and> ?F = Inl (HDAWGValueError m r)"
    proof (cases rw)
      case (Inl e)
      with R rw have "?RW = (Inl (HDAWGValueError m r), s')"
        by (simp add: wm_register_def assms)
      then show ?thesis by (simp add: register_wave_value_error)
    next
      case (Inr wn)
      obtain rm s2 where rm: "register_marker H s1 w ts n (length chans) mrks ow = (rm, s2)"
        by (cases "register_marker H s1 w ts n (length chans) mrks ow")
      show ?thesis
      proof (cases rm)
        case (Inl e)
        with R rw rm \<open>rw = Inr wn\<close> have "e = HDAWGValueError m r"
          by (simp add: wm_register_def assms)
        with register_marker_error [OF rm [unfolded Inl]] show ?thesis by blast
      next
        case (Inr mn)
        with R rw rm \<open>rw = Inr wn\<close> show ?thesis
          by (simp add: wm_register_def assms)
      qed
    qed
  qed
qed



lemma amp_column_length: "amp_column w ts n vts rngs offs i c col \<Longrightarrow> length col = n"
  by (auto simp: amp_column_def split: sum.splits if_splits)

lemma volt_to_amp_bounded:
  assumes "volt_to_amp volt rng off = Inr scaled" "rng \<noteq> 0" "x \<in> set scaled"
  shows "\<exists>y. x = Amp y \<and> \<bar>y\<bar> \<le> 1"
proof -
  from assms(1) have no: "\<not> list_ex (\<lambda>v. \<bar>v - off\<bar> > rng) volt"
    and sc: "scaled = map (\<lambda>v. if rng = 0 then NaN else Amp ((v - off) / rng)) volt"
    by (auto simp: volt_to_amp_def split: if_splits)
  from sc assms(2,3) obtain v where v: "v \<in> set volt" "x = Amp ((v - off) / rng)" by auto
  from no v(1) have le: "\<bar>v - off\<bar> \<le> rng" by (auto simp: list_ex_iff not_less)
  then have "0 \<le> rng" by linarith
  with assms(2) have pos: "0 < rng" by simp
  have "\<bar>(v - off) / rng\<bar> = \<bar>v - off\<bar> / rng" using pos by simp
  also have "\<dots> \<le> 1" using le pos by simp
  finally show ?thesis using v(2) by blast
qed

lemma amp_column_bounded:
  assumes "amp_column w ts n vts rngs offs i c col" "rngs ! i \<noteq> 0" "x \<in> set col"
  shows "\<exists>y. x = Amp y \<and> \<bar>y\<bar> \<le> 1"
proof -
  from assms(1) obtain scaled where
    sc: "volt_to_amp (transformed w ts vts i c) (rngs ! i) (offs ! i) = Inr scaled"
    and col: "col = scaled \<or> (length scaled = 1 \<and> col = replicate n (hd scaled))"
    by (auto simp: amp_column_def split: sum.splits if_splits)
  from col assms(3) have "x \<in> set scaled"
    by (cases scaled) (auto split: if_splits)
  from volt_to_amp_bounded [OF sc assms(2) this] show ?thesis .
qed

lemma fill_amplitude_columns:
  "distinct (map fst es) \<Longrightarrow> fill_amplitude w ts n vts rngs offs es a = Inr a' \<Longrightarrow>
   length a' = length a \<and>
   (\<forall>i<length a. (\<forall>c. (i, Some c) \<in> set es \<longrightarrow> amp_column w ts n vts rngs offs i c (a' ! i)) \<and>
                  ((\<forall>c. (i, Some c) \<notin> set es) \<longrightarrow> a' ! i = a ! i))"
proof (induction es arbitrary: a)
  case Nil
  then show ?case by simp
next
  case (Cons x es)
  obtain idx ch where x: "x = (idx, ch)" by (cases x)
  from Cons.prems(1) have dist: "distinct (map fst es)" and fresh: "idx \<notin> fst ` set es"
    by (auto simp: x)
  show ?case
  proof (cases ch)
    case None
    with Cons.prems(2) have "fill_amplitude w ts n vts rngs offs es a = Inr a'"
      by (simp add: x)
    from Cons.IH [OF dist this] show ?thesis by (auto simp: x None)
  next
    case (Some chan)
    let ?v = "volt_to_amp (transformed w ts vts idx chan) (rngs ! idx) (offs ! idx)"
    from Cons.prems(2) have ok: "idx < length vts \<and> idx < length rngs \<and> idx < length offs"
      unfolding x Some fill_amplitude_Some by (auto split: if_splits)
    from Cons.prems(2) ok obtain scaled a1 where
      sc: "?v = Inr scaled" and a1: "assign_column a n idx scaled = Inr a1"
      and rest: "fill_amplitude w ts n vts rngs offs es a1 = Inr a'"
      unfolding x Some fill_amplitude_Some transformed_def by (auto split: sum.splits)
    from a1 have idx: "idx < length a" and la1: "length a1 = length a"
      and col: "amp_column w ts n vts rngs offs idx chan (a1 ! idx)"
      and other: "\<forall>i. i \<noteq> idx \<longrightarrow> a1 ! i = a ! i"
      using sc by (auto simp: assign_column_def amp_column_def split: if_splits)
    from Cons.IH [OF dist rest] have
      IH: "length a' = length a1"
        "\<And>i c. i < length a1 \<Longrightarrow> (i, Some c) \<in> set es \<Longrightarrow> amp_column w ts n vts rngs offs i c (a' ! i)"
        "\<And>i. i < length a1 \<Longrightarrow> (\<forall>c. (i, Some c) \<notin> set es) \<Longrightarrow> a' ! i = a1 ! i"
      by blast+
    have noidx: "\<forall>c. (idx, Some c) \<notin> set es" using fresh by force
    have P1: "amp_column w ts n vts rngs offs i c (a' ! i)"
      if "i < length a" "(i, Some c) \<in> set (x # es)" for i c
    proof (cases "i = idx")
      case True
      with that fresh have "c = chan" by (force simp: x Some)
      moreover have "a' ! idx = a1 ! idx" using IH(3) [of idx] idx la1 noidx by simp
      ultimately show ?thesis using col True by simp
    next
      case False
      with that have "(i, Some c) \<in> set es" by (simp add: x)
      with IH(2) that(1) la1 show ?thesis by simp
    qed
    have P2: "a' ! i = a ! i" if "i < length a" "\<forall>c. (i, Some c) \<notin> set (x # es)" for i
    proof -
      from that(2) have "i \<noteq> idx" "\<forall>c. (i, Some c) \<notin> set es" by (auto simp: x Some)
      with IH(3) [of i] that(1) la1 other show ?thesis by simp
    qed
    show ?thesis
    proof (intro conjI allI impI)
      show "length a' = length a" using IH(1) la1 by simp
    next
      fix i c assume "i < length a" "(i, Some c) \<in> set (x # es)"
      then show "amp_column w ts n vts rngs offs i c (a' ! i)" by (rule P1)
    next
      fix i assume "i < length a" "\<forall>c. (i, Some c) \<notin> set (x # es)"
      then show "a' ! i = a ! i" by (rule P2)
    qed
  qed
qed

lemma fill_marker_columns:
  "distinct (map fst es) \<Longrightarrow> fill_marker w ts n es a = Inr a' \<Longrightarrow>
   length a' = length a \<and>
   (\<forall>i<length a. (\<forall>c. (i, Some c) \<in> set es \<longrightarrow> length (a' ! i) = n \<and> (\<forall>x\<in>set (a' ! i). x = 0 \<or> x = 1)) \<and>
                  ((\<forall>c. (i, Some c) \<notin> set es) \<longrightarrow> a' ! i = a ! i))"
proof (induction es arbitrary: a)
  case Nil
  then show ?case by simp
next
  case (Cons x es)
  obtain idx ch where x: "x = (idx, ch)" by (cases x)
  from Cons.prems(1) have dist: "distinct (map fst es)" and fresh: "idx \<notin> fst ` set es"
    by (auto simp: x)
  show ?case
  proof (cases ch)
    case None
    with Cons.prems(2) have "fill_marker w ts n es a = Inr a'"
      by (simp add: x)
    from Cons.IH [OF dist this] show ?thesis by (auto simp: x None)
  next
    case (Some chan)
    let ?col = "map (\<lambda>v. of_bool (v \<noteq> 0) :: 8 word) (get_sampled w chan ts)"
    from Cons.prems(2) obtain a1 where
      a1: "assign_column a n idx ?col = Inr a1"
      and rest: "fill_marker w ts n es a1 = Inr a'"
      unfolding x Some by (auto split: sum.splits)
    have bits: "\<forall>x\<in>set ?col. x = 0 \<or> x = 1" by auto
    from a1 have idx: "idx < length a" and la1: "length a1 = length a"
      and other: "\<forall>i. i \<noteq> idx \<longrightarrow> a1 ! i = a ! i"
      by (auto simp: assign_column_def split: if_splits)
    from a1 have "a1 ! idx = ?col \<and> length ?col = n \<or> (length ?col = 1 \<and> a1 ! idx = replicate n (hd ?col))"
      by (auto simp: assign_column_def split: if_splits)
    then have col: "length (a1 ! idx) = n \<and> (\<forall>x\<in>set (a1 ! idx). x = 0 \<or> x = 1)"
    proof
      assume "a1 ! idx = ?col \<and> length ?col = n"
      then show ?thesis using bits by metis
    next
      assume A: "length ?col = 1 \<and> a1 ! idx = replicate n (hd ?col)"
      then have "hd ?col \<in> set ?col" by (cases ?col) auto
      with bits have "hd ?col = 0 \<or> hd ?col = 1" by blast
      with A show ?thesis by auto
    qed
    from Cons.IH [OF dist rest] have
      IH: "length a' = length a1"
        "\<And>i c. i < length a1 \<Longrightarrow> (i, Some c) \<in> set es \<Longrightarrow> length (a' ! i) = n \<and> (\<forall>x\<in>set (a' ! i). x = 0 \<or> x = 1)"
        "\<And>i. i < length a1 \<Longrightarrow> (\<forall>c. (i, Some c) \<notin> set es) \<Longrightarrow> a' ! i = a1 ! i"
      by blast+
    have noidx: "\<forall>c. (idx, Some c) \<notin> set es" using fresh by force
    have P1: "length (a' ! i) = n \<and> (\<forall>x\<in>set (a' ! i). x = 0 \<or> x = 1)"
      if "i < length a" "(i, Some c) \<in> set (x # es)" for i c
    proof (cases "i = idx")
      case True
      have "a' ! idx = a1 ! idx" using IH(3) [of idx] idx la1 noidx by simp
      then show ?thesis using col True by simp
    next
      case False
      with that have "(i, Some c) \<in> set es" by (simp add: x)
      with IH(2) that(1) la1 show ?thesis by simp
    qed
    have P2: "a' ! i = a ! i" if "i < length a" "\<forall>c. (i, Some c) \<notin> set (x # es)" for i
    proof -
      from that(2) have "i \<noteq> idx" "\<forall>c. (i, Some c) \<notin> set es" by (auto simp: x Some)
      with IH(3) [of i] that(1) la1 other show ?thesis by simp
    qed
    show ?thesis
    proof (intro conjI allI impI)
      show "length a' = length a" using IH(1) la1 by simp
    next
      fix i c assume "i < length a" "(i, Some c) \<in> set (x # es)"
      then show "length (a' ! i) = n" using P1 by blast
    next
      fix i c assume "i < length a" "(i, Some c) \<in> set (x # es)"
      then show "\<forall>x\<in>set (a' ! i). x = 0 \<or> x = 1" using P1 by blast
    next
      fix i assume "i < length a" "\<forall>c. (i, Some c) \<notin> set (x # es)"
      then show "a' ! i = a ! i" by (rule P2)
    qed
  qed
qed

lemma distinct_enumerate_list: "distinct (map fst (enumerate_list xs))"
  by (simp add: enumerate_list_def)


lemma writes_to_append [simp]: "writes_to p (xs @ ys) = writes_to p xs + writes_to p ys"
  by (simp add: writes_to_def)

lemma full_file_path_cong: "file_type s' = file_type s \<Longrightarrow> full_file_path s' nm = full_file_path s nm"
  by (simp add: full_file_path_def)

lemma full_file_path_inj: "full_file_path s nm = full_file_path s nm' \<longleftrightarrow> nm = nm'"
  by (simp add: full_file_path_def)

lemma register_wave_frame:
  "register_wave H s w ts n chans vts rngs offs ow = (r, s') \<Longrightarrow>
   file_type s' = file_type s \<and> awg_prefix s' = awg_prefix s \<and> marker_by_data s' = marker_by_data s \<and>
   (\<forall>p. wave_dir s p \<noteq> None \<longrightarrow> wave_dir s' p \<noteq> None)"
  by (auto simp: register_wave_def to_file_def Let_def
           split: if_splits sum.splits option.splits prod.splits)

lemma register_marker_frame:
  "register_marker H s w ts n k mrks ow = (r, s') \<Longrightarrow>
   file_type s' = file_type s \<and> awg_prefix s' = awg_prefix s \<and> wave_by_data s' = wave_by_data s \<and>
   (\<forall>p. wave_dir s p \<noteq> None \<longrightarrow> wave_dir s' p \<noteq> None)"
  by (auto simp: register_marker_def to_file_def Let_def
           split: if_splits sum.splits option.splits prod.splits)

lemma register_wave_log:
  "register_wave H s w ts n chans vts rngs offs ow = (r, s') \<Longrightarrow>
   savetxt_log s' = savetxt_log s \<or>
   (\<exists>a nm. fill_amplitude w ts n vts rngs offs (enumerate_list chans)
              (np_zeros (Amp 0) n (length chans)) = Inr a \<and>
           wave_by_data s' (H (Float64 a)) = Some nm \<and>
           savetxt_log s' = savetxt_log s @ [(full_file_path s nm, Float64 a, ''%f'')])"
  by (auto simp: register_wave_def to_file_def Let_def full_file_path_def
           split: if_splits sum.splits option.splits prod.splits)

lemma register_marker_log:
  "register_marker H s w ts n k mrks ow = (r, s') \<Longrightarrow>
   savetxt_log s' = savetxt_log s \<or>
   (\<exists>b nm. fill_marker w ts n (enumerate_list mrks) (np_zeros 0 n k) = Inr b \<and>
           marker_by_data s' (H (UInt8 b)) = Some nm \<and>
           savetxt_log s' = savetxt_log s @ [(full_file_path s nm, UInt8 b, ''%d'')])"
  by (auto simp: register_marker_def to_file_def Let_def full_file_path_def
           split: if_splits sum.splits option.splits prod.splits)

lemma fill_amplitude_shape:
  assumes "fill_amplitude w ts n vts rngs offs (enumerate_list chans)
             (np_zeros (Amp 0) n (length chans)) = Inr a"
  shows "wave_array_shape n chans rngs a"
proof -
  let ?z = "np_zeros (Amp 0) n (length chans)"
  have lz: "length ?z = length chans" by (simp add: np_zeros_def)
  have zi: "?z ! i = replicate n (Amp 0)" if "i < length chans" for i
    using that by (simp add: np_zeros_def)
  from fill_amplitude_columns [OF distinct_enumerate_list assms]
  have la: "length a = length chans"
    and act: "\<And>i c. i < length chans \<Longrightarrow> chans ! i = Some c \<Longrightarrow> amp_column w ts n vts rngs offs i c (a ! i)"
    and ina: "\<And>i. i < length chans \<Longrightarrow> chans ! i = None \<Longrightarrow> a ! i = ?z ! i"
    by (auto simp: lz in_enumerate_list)
  have "length (a ! i) = n \<and>
        (chans ! i = None \<longrightarrow> a ! i = replicate n (Amp 0)) \<and>
        (chans ! i \<noteq> None \<longrightarrow> rngs ! i \<noteq> 0 \<longrightarrow> (\<forall>x\<in>set (a ! i). \<exists>y. x = Amp y \<and> \<bar>y\<bar> \<le> 1))"
    if i: "i < length chans" for i
  proof (cases "chans ! i")
    case None
    with ina [OF i] zi [OF i] show ?thesis by simp
  next
    case (Some c)
    from act [OF i Some] have col: "amp_column w ts n vts rngs offs i c (a ! i)" .
    from amp_column_length [OF col] amp_column_bounded [OF col] Some show ?thesis by auto
  qed
  with la show ?thesis unfolding wave_array_shape_def by blast
qed

lemma fill_marker_shape:
  assumes "fill_marker w ts n (enumerate_list mrks) (np_zeros 0 n k) = Inr b"
  shows "marker_array_shape n k mrks b"
proof -
  let ?z = "np_zeros (0 :: 8 word) n k"
  have lz: "length ?z = k" by (simp add: np_zeros_def)
  have zi: "?z ! i = replicate n 0" if "i < k" for i
    using that by (simp add: np_zeros_def)
  from fill_marker_columns [OF distinct_enumerate_list assms]
  have lb: "length b = k"
    and act: "\<And>i c. i < k \<Longrightarrow> i < length mrks \<Longrightarrow> mrks ! i = Some c \<Longrightarrow>
                length (b ! i) = n \<and> (\<forall>x\<in>set (b ! i). x = 0 \<or> x = 1)"
    and ina: "\<And>i. i < k \<Longrightarrow> length mrks \<le> i \<or> mrks ! i = None \<Longrightarrow> b ! i = ?z ! i"
    by (auto simp: lz in_enumerate_list)
  have "length (b ! i) = n \<and> (\<forall>x\<in>set (b ! i). x = 0 \<or> x = 1) \<and>
        ((length mrks \<le> i \<or> mrks ! i = None) \<longrightarrow> b ! i = replicate n 0)"
    if i: "i < k" for i
  proof (cases "length mrks \<le> i \<or> mrks ! i = None")
    case True
    with ina [OF i] zi [OF i] show ?thesis by simp
  next
    case False
    then obtain c where c: "i < length mrks" "mrks ! i = Some c" by auto
    from act [OF i c] c show ?thesis by simp
  qed
  with lb show ?thesis unfolding marker_array_shape_def by blast
qed

lemma str_nat_digits: "str_nat n \<noteq> [] \<and> set (str_nat n) \<subseteq> set ''0123456789''"
proof (induction n rule: str_nat.induct)
  case (1 n)
  have d: "''0123456789'' ! k \<in> set ''0123456789''" if "k < 10" for k
    using that nth_mem [of k "''0123456789''"] by simp
  show ?case
  proof (cases "n < 10")
    case True
    then show ?thesis using d [of n] by (subst (1 2) str_nat.simps) simp
  next
    case False
    have "n mod 10 < 10" by simp
    from d [OF this] 1 False show ?thesis by (subst (1 2) str_nat.simps) simp
  qed
qed

lemma wave_marker_names_differ: "generate_wave_name s h \<noteq> generate_marker_name s h'"
proof
  assume "generate_wave_name s h = generate_marker_name s h'"
  then have "str_nat (nat \<bar>h\<bar>) = ''M_'' @ str_nat (nat \<bar>h'\<bar>)"
    by (simp add: generate_wave_name_def generate_marker_name_def str_int_def)
  then have "CHR ''M'' \<in> set (str_nat (nat \<bar>h\<bar>))" by simp
  with str_nat_digits [of "nat \<bar>h\<bar>"] show False by auto
qed


lemma register_wave_first:
  assumes "register_wave H s w ts n chans vts rngs offs False = (Inr wn, s1)"
  shows "(wn = None \<longrightarrow> s1 = s) \<and>
         (\<forall>nm. wn = Some nm \<longrightarrow>
            wave_dir s1 (full_file_path s nm) \<noteq> None \<and>
            (\<forall>P. writes_to P (savetxt_log s1) = writes_to P (savetxt_log s) +
                    (if P = full_file_path s nm \<and> wave_dir s P = None then 1 else 0)) \<and>
            (\<forall>P. P \<noteq> full_file_path s nm \<longrightarrow> wave_dir s1 P = wave_dir s P))"
  using assms
  by (auto simp: register_wave_def to_file_def Let_def full_file_path_def writes_to_def
           split: if_splits sum.splits option.splits prod.splits)

lemma register_marker_first:
  assumes "register_marker H s w ts n k mrks False = (Inr mn, s1)"
  shows "(mn = None \<longrightarrow> s1 = s) \<and>
         (\<forall>nm. mn = Some nm \<longrightarrow>
            wave_dir s1 (full_file_path s nm) \<noteq> None \<and>
            (\<forall>P. writes_to P (savetxt_log s1) = writes_to P (savetxt_log s) +
                    (if P = full_file_path s nm \<and> wave_dir s P = None then 1 else 0)) \<and>
            (\<forall>P. P \<noteq> full_file_path s nm \<longrightarrow> wave_dir s1 P = wave_dir s P))"
  using assms
  by (auto simp: register_marker_def to_file_def Let_def full_file_path_def writes_to_def
           split: if_splits sum.splits option.splits prod.splits)

lemma register_wave_Some:
  assumes "register_wave H s w ts n chans vts rngs offs False = (Inr (Some nm), s1)"
  shows "list_ex (\<lambda>chan. chan \<noteq> None) chans \<and>
         (\<exists>a. fill_amplitude w ts n vts rngs offs (enumerate_list chans)
                 (np_zeros (Amp 0) n (length chans)) = Inr a \<and>
              wave_by_data s1 (H (Float64 a)) = Some nm) \<and>
         wave_dir s1 (full_file_path s1 nm) \<noteq> None"
  using assms
  by (auto simp: register_wave_def to_file_def Let_def full_file_path_def
           split: if_splits sum.splits option.splits prod.splits)

lemma register_wave_None:
  assumes "register_wave H s w ts n chans vts rngs offs ow = (Inr None, s1)"
  shows "\<not> list_ex (\<lambda>chan. chan \<noteq> None) chans"
  using assms
  by (auto simp: register_wave_def to_file_def Let_def
           split: if_splits sum.splits option.splits prod.splits)

lemma register_wave_hit:
  assumes "list_ex (\<lambda>chan. chan \<noteq> None) chans"
    and "fill_amplitude w ts n vts rngs offs (enumerate_list chans)
           (np_zeros (Amp 0) n (length chans)) = Inr a"
    and "wave_by_data t (H (Float64 a)) = Some nm"
    and "wave_dir t (full_file_path t nm) \<noteq> None"
  shows "register_wave H t w ts n chans vts rngs offs False = (Inr (Some nm), t)"
  using assms by (auto simp: register_wave_def)

lemma register_wave_again:
  assumes "register_wave H s w ts n chans vts rngs offs False = (Inr wn, s1)"
    and t: "wave_by_data t = wave_by_data s1" "file_type t = file_type s1"
      "\<forall>p. wave_dir s1 p \<noteq> None \<longrightarrow> wave_dir t p \<noteq> None"
  shows "register_wave H t w ts n chans vts rngs offs False = (Inr wn, t)"
proof (cases wn)
  case None
  with register_wave_None [of H s w ts n chans vts rngs offs False s1] assms(1)
  have "\<not> list_ex (\<lambda>chan. chan \<noteq> None) chans" by simp
  then show ?thesis unfolding None by (simp add: register_wave_def)
next
  case (Some nm)
  from register_wave_Some [OF assms(1) [unfolded Some]] obtain a where
    "list_ex (\<lambda>chan. chan \<noteq> None) chans"
    "fill_amplitude w ts n vts rngs offs (enumerate_list chans) (np_zeros (Amp 0) n (length chans)) = Inr a"
    "wave_by_data s1 (H (Float64 a)) = Some nm"
    "wave_dir s1 (full_file_path s1 nm) \<noteq> None"
    by blast
  then show ?thesis unfolding Some
    using t by (intro register_wave_hit) (simp_all add: full_file_path_def)
qed

lemma register_marker_Some:
  assumes "register_marker H s w ts n k mrks False = (Inr (Some nm), s1)"
  shows "list_ex (\<lambda>marker. marker \<noteq> None) mrks \<and>
         (\<exists>b. fill_marker w ts n (enumerate_list mrks) (np_zeros 0 n k) = Inr b \<and>
              marker_by_data s1 (H (UInt8 b)) = Some nm) \<and>
         wave_dir s1 (full_file_path s1 nm) \<noteq> None"
  using assms
  by (auto simp: register_marker_def to_file_def Let_def full_file_path_def
           split: if_splits sum.splits option.splits prod.splits)

lemma register_marker_None:
  assumes "register_marker H s w ts n k mrks ow = (Inr None, s1)"
  shows "\<not> list_ex (\<lambda>marker. marker \<noteq> None) mrks"
  using assms
  by (auto simp: register_marker_def to_file_def Let_def
           split: if_splits sum.splits option.splits prod.splits)

lemma register_marker_hit:
  assumes "list_ex (\<lambda>marker. marker \<noteq> None) mrks"
    and "fill_marker w ts n (enumerate_list mrks) (np_zeros 0 n k) = Inr b"
    and "marker_by_data t (H (UInt8 b)) = Some nm"
    and "wave_dir t (full_file_path t nm) \<noteq> None"
  shows "register_marker H t w ts n k mrks False = (Inr (Some nm), t)"
  using assms by (auto simp: register_marker_def)

lemma register_marker_again:
  assumes "register_marker H s w ts n k mrks False = (Inr mn, s1)"
    and t: "marker_by_data t = marker_by_data s1" "file_type t = file_type s1"
      "\<forall>p. wave_dir s1 p \<noteq> None \<longrightarrow> wave_dir t p \<noteq> None"
  shows "register_marker H t w ts n k mrks False = (Inr mn, t)"
proof (cases mn)
  case None
  with register_marker_None [of H s w ts n k mrks False s1] assms(1)
  have "\<not> list_ex (\<lambda>marker. marker \<noteq> None) mrks" by simp
  then show ?thesis unfolding None by (simp add: register_marker_def)
next
  case (Some nm)
  from register_marker_Some [OF assms(1) [unfolded Some]] obtain b where
    "list_ex (\<lambda>marker. marker \<noteq> None) mrks"
    "fill_marker w ts n (enumerate_list mrks) (np_zeros 0 n k) = Inr b"
    "marker_by_data s1 (H (UInt8 b)) = Some nm"
    "wave_dir s1 (full_file_path s1 nm) \<noteq> None"
    by blast
  then show ?thesis unfolding Some
    using t by (intro register_marker_hit) (simp_all add: full_file_path_def)
qed


lemma register_wave_same_content:
  assumes first: "register_wave H s w ts n chans vts rngs offs False = (Inr wn, s1)"
    and st: "sample_times w rate = (ts, n)" "sample_times w' rate' = (ts', n')"
    and same: "wave_content w' rate' chans' vts' rngs' offs' = wave_content w rate chans vts rngs offs"
    and t: "wave_by_data t = wave_by_data s1" "file_type t = file_type s1"
      "\<forall>p. wave_dir s1 p \<noteq> None \<longrightarrow> wave_dir t p \<noteq> None"
  shows "register_wave H t w' ts' n' chans' vts' rngs' offs' False = (Inr wn, t)"
proof (cases wn)
  case None
  with register_wave_None [of H s w ts n chans vts rngs offs False s1] first
  have "\<not> list_ex (\<lambda>chan. chan \<noteq> None) chans" by simp
  with same st have "\<not> list_ex (\<lambda>chan. chan \<noteq> None) chans'"
    by (auto simp: wave_content_def split: if_splits)
  then show ?thesis unfolding None by (simp add: register_wave_def)
next
  case (Some nm)
  from register_wave_Some [OF first [unfolded Some]] obtain a where
    a: "list_ex (\<lambda>chan. chan \<noteq> None) chans"
    "fill_amplitude w ts n vts rngs offs (enumerate_list chans) (np_zeros (Amp 0) n (length chans)) = Inr a"
    "wave_by_data s1 (H (Float64 a)) = Some nm"
    "wave_dir s1 (full_file_path s1 nm) \<noteq> None"
    by blast
  from same st a(1,2) have
    "list_ex (\<lambda>chan. chan \<noteq> None) chans'"
    "fill_amplitude w' ts' n' vts' rngs' offs' (enumerate_list chans') (np_zeros (Amp 0) n' (length chans')) = Inr a"
    by (auto simp: wave_content_def split: if_splits)
  then show ?thesis unfolding Some
    using t a(3,4) by (intro register_wave_hit) (simp_all add: full_file_path_def)
qed

lemma register_marker_same_content:
  assumes first: "register_marker H s w ts n (length chans) mrks False = (Inr mn, s1)"
    and st: "sample_times w rate = (ts, n)" "sample_times w' rate' = (ts', n')"
    and same: "marker_content w' rate' chans' mrks' = marker_content w rate chans mrks"
    and t: "marker_by_data t = marker_by_data s1" "file_type t = file_type s1"
      "\<forall>p. wave_dir s1 p \<noteq> None \<longrightarrow> wave_dir t p \<noteq> None"
  shows "register_marker H t w' ts' n' (length chans') mrks' False = (Inr mn, t)"
proof (cases mn)
  case None
  with register_marker_None [of H s w ts n "length chans" mrks False s1] first
  have "\<not> list_ex (\<lambda>marker. marker \<noteq> None) mrks" by simp
  with same st have "\<not> list_ex (\<lambda>marker. marker \<noteq> None) mrks'"
    by (auto simp: marker_content_def split: if_splits)
  then show ?thesis unfolding None by (simp add: register_marker_def)
next
  case (Some nm)
  from register_marker_Some [OF first [unfolded Some]] obtain b where
    b: "list_ex (\<lambda>marker. marker \<noteq> None) mrks"
    "fill_marker w ts n (enumerate_list mrks) (np_zeros 0 n (length chans)) = Inr b"
    "marker_by_data s1 (H (UInt8 b)) = Some nm"
    "wave_dir s1 (full_file_path s1 nm) \<noteq> None"
    by blast
  from same st b(1,2) have
    "list_ex (\<lambda>marker. marker \<noteq> None) mrks'"
    "fill_marker w' ts' n' (enumerate_list mrks') (np_zeros 0 n' (length chans')) = Inr b"
    by (auto simp: marker_content_def split: if_splits)
  then show ?thesis unfolding Some
    using t b(3,4) by (intro register_marker_hit) (simp_all add: full_file_path_def)
qed


lemmas wm_eval =
  register_single_channels_def wm_register_def register_wave_def register_marker_def
  constant_waveform_def constant_hash_def enumerate_list_def np_zeros_def tuple_get_def
  volt_to_amp_def np_max_def upt_rec wm_init_def generate_wave_name_def generate_marker_name_def
  str_int_def str_nat.simps full_file_path_def to_file_def assign_column_def transformed_def Let_def


subsection \<open>Artifact names\<close>

text \<open>
  C10. The artifact name is built from the absolute value of the content hash:
  for every hash value \<open>h\<close>, the wave name of \<open>h\<close> is the wave name of \<open>- h\<close>, and the
  marker name of \<open>h\<close> is the marker name of \<open>- h\<close>, so that two cache entries whose
  hashes differ only in sign share one file name.
\<close>

theorem generate_name_ignores_sign:
  "generate_wave_name s h = generate_wave_name s (- h) \<and>
   generate_marker_name s h = generate_marker_name s (- h) \<and>
   full_file_path s (generate_wave_name s h) = full_file_path s (generate_wave_name s (- h)) \<and>
   full_file_path s (generate_marker_name s h) = full_file_path s (generate_marker_name s (- h))"
  by (simp add: generate_wave_name_def generate_marker_name_def)


subsection \<open>Range violations\<close>

text \<open>
  C3. Let the configuration reach every non-empty channel slot, and let the transformed
  samples of each such slot fit the time axis. Then \<^verbatim>\<open>register\<close> raises the range violation
  if and only if some transformed sample \<open>v\<close> of a non-empty slot \<open>i\<close> has
  \<open>\<bar>v - offset[i]\<bar> > range[i]\<close>. When it does, the error reports the range \<open>r\<close> of such a
  slot and the largest magnitude \<open>m\<close> of that slot's samples, which exceeds \<open>r\<close>; and the
  state of the cache is the one before the call: no file is written and no entry recorded.
\<close>

theorem register_range_violation:
  assumes st: "sample_times w rate = (ts, n)"
    and ok: "\<forall>i<length chans. \<forall>c. chans ! i = Some c \<longrightarrow>
               i < length vts \<and> i < length rngs \<and> i < length offs \<and>
               (length (transformed w ts vts i c) = n \<or> length (transformed w ts vts i c) = 1)"
  shows "((\<exists>m r. fst (wm_register H s w chans mrks vts rate rngs offs ow) = Inl (HDAWGValueError m r)) \<longleftrightarrow>
          (\<exists>i<length chans. \<exists>c. chans ! i = Some c \<and>
              (\<exists>v\<in>set (transformed w ts vts i c). rngs ! i < \<bar>v - offs ! i\<bar>))) \<and>
         (\<forall>m r. fst (wm_register H s w chans mrks vts rate rngs offs ow) = Inl (HDAWGValueError m r) \<longrightarrow>
            snd (wm_register H s w chans mrks vts rate rngs offs ow) = s \<and>
            (\<exists>i<length chans. \<exists>c. chans ! i = Some c \<and> r = rngs ! i \<and> r < m \<and>
                m = Max ((\<lambda>v. \<bar>v - offs ! i\<bar>) ` set (transformed w ts vts i c))))"
proof -
  let ?R = "wm_register H s w chans mrks vts rate rngs offs ow"
  let ?F = "fill_amplitude w ts n vts rngs offs (enumerate_list chans) (np_zeros (Amp 0) n (length chans))"
  have off: "offending w ts vts rngs offs i c \<longleftrightarrow> (\<exists>v\<in>set (transformed w ts vts i c). rngs ! i < \<bar>v - offs ! i\<bar>)"
    for i c by (simp add: offending_def list_ex_iff)
  have R: "?R = (Inl (HDAWGValueError m r), s') \<longleftrightarrow> s' = s \<and> ?F = Inl (HDAWGValueError m r)" for m r s'
    by (rule wm_register_value_error [OF st])
  have fstR: "fst ?R = Inl (HDAWGValueError m r) \<longleftrightarrow> ?F = Inl (HDAWGValueError m r)" for m r
    using R [of m r "snd ?R"] R [of m r s] by (metis fst_conv prod.collapse)
  have sndR: "snd ?R = s" if "fst ?R = Inl (HDAWGValueError m r)" for m r
    using R [of m r "snd ?R"] that by (metis prod.collapse)
  have slots: "\<forall>(i, ch) \<in> set (enumerate_list chans). \<forall>c. ch = Some c \<longrightarrow>
      slot_ok w ts n vts rngs offs (length (np_zeros (Amp 0) n (length chans))) i c"
    using ok by (auto simp: in_enumerate_list slot_ok_def np_zeros_def)
  have dir1: "\<exists>i<length chans. \<exists>c. chans ! i = Some c \<and> r = rngs ! i \<and> r < m \<and>
        m = Max ((\<lambda>v. \<bar>v - offs ! i\<bar>) ` set (transformed w ts vts i c))"
    if "?F = Inl (HDAWGValueError m r)" for m r
  proof -
    from fill_amplitude_error [OF that] obtain i c where
      ic: "i < length chans" "chans ! i = Some c" and o: "offending w ts vts rngs offs i c"
      and r: "r = rngs ! i"
      and m: "m = np_max (map (\<lambda>v. \<bar>v - offs ! i\<bar>) (transformed w ts vts i c))"
      by (auto simp: in_enumerate_list transformed_def)
    from o obtain v where v: "v \<in> set (transformed w ts vts i c)" "rngs ! i < \<bar>v - offs ! i\<bar>"
      by (auto simp: off)
    then have ne: "map (\<lambda>v. \<bar>v - offs ! i\<bar>) (transformed w ts vts i c) \<noteq> []" by auto
    have mM: "m = Max ((\<lambda>v. \<bar>v - offs ! i\<bar>) ` set (transformed w ts vts i c))"
      using m np_max_Max [OF ne] by simp
    have "\<bar>v - offs ! i\<bar> \<le> m" unfolding mM using v(1) by (intro Max_ge) auto
    with v(2) r have "r < m" by simp
    with ic r mM show ?thesis by blast
  qed
  have dir2: "\<exists>m r. ?F = Inl (HDAWGValueError m r)"
    if "\<exists>i<length chans. \<exists>c. chans ! i = Some c \<and> (\<exists>v\<in>set (transformed w ts vts i c). rngs ! i < \<bar>v - offs ! i\<bar>)"
  proof -
    from that have "\<exists>i c. (i, Some c) \<in> set (enumerate_list chans) \<and> offending w ts vts rngs offs i c"
      by (auto simp: in_enumerate_list off)
    from fill_amplitude_raises [OF slots this] show ?thesis .
  qed
  have A: "(\<exists>m r. fst ?R = Inl (HDAWGValueError m r)) \<longleftrightarrow>
          (\<exists>i<length chans. \<exists>c. chans ! i = Some c \<and>
              (\<exists>v\<in>set (transformed w ts vts i c). rngs ! i < \<bar>v - offs ! i\<bar>))"
  proof
    assume "\<exists>m r. fst ?R = Inl (HDAWGValueError m r)"
    then obtain m r where "?F = Inl (HDAWGValueError m r)" by (auto simp: fstR)
    from fill_amplitude_error [OF this] show "\<exists>i<length chans. \<exists>c. chans ! i = Some c \<and>
              (\<exists>v\<in>set (transformed w ts vts i c). rngs ! i < \<bar>v - offs ! i\<bar>)"
      by (auto simp: in_enumerate_list off)
  next
    assume "\<exists>i<length chans. \<exists>c. chans ! i = Some c \<and>
              (\<exists>v\<in>set (transformed w ts vts i c). rngs ! i < \<bar>v - offs ! i\<bar>)"
    from dir2 [OF this] show "\<exists>m r. fst ?R = Inl (HDAWGValueError m r)" by (simp add: fstR)
  qed
  have B: "\<forall>m r. fst ?R = Inl (HDAWGValueError m r) \<longrightarrow>
            snd ?R = s \<and>
            (\<exists>i<length chans. \<exists>c. chans ! i = Some c \<and> r = rngs ! i \<and> r < m \<and>
                m = Max ((\<lambda>v. \<bar>v - offs ! i\<bar>) ` set (transformed w ts vts i c)))"
    using sndR dir1 fstR by blast
  from A B show ?thesis by (rule conjI)
qed

theorem register_range_violation_witness:
  "fst (wm_register (constant_hash 7) (wm_init ''dev'') (constant_waveform [1/2, 3/2, -2])
          [Some (ChanStr ''A'')] [None] [id] 1 [1] [0] False) = Inl (HDAWGValueError 2 1) \<and>
   snd (wm_register (constant_hash 7) (wm_init ''dev'') (constant_waveform [1/2, 3/2, -2])
          [Some (ChanStr ''A'')] [None] [id] 1 [1] [0] False) = wm_init ''dev''"
proof -
  let ?w = "constant_waveform [1/2, 3/2, -2]"
  let ?R = "wm_register (constant_hash 7) (wm_init ''dev'') ?w [Some (ChanStr ''A'')] [None] [id] 1 [1] [0] False"
  have st: "sample_times ?w 1 = ([0, 1, 2], 3)"
    by (simp add: constant_waveform_def upt_rec)
  have tr: "transformed ?w [0, 1, 2] [id] 0 (ChanStr ''A'') = [1/2, 3/2, -2]"
    by (simp add: transformed_def constant_waveform_def)
  have ok: "\<forall>i<length [Some (ChanStr ''A'')]. \<forall>c. [Some (ChanStr ''A'')] ! i = Some c \<longrightarrow>
               i < length [id :: transformation] \<and> i < length [1::real] \<and> i < length [0::real] \<and>
               (length (transformed ?w [0, 1, 2] [id] i c) = 3 \<or>
                length (transformed ?w [0, 1, 2] [id] i c) = 1)"
    using tr by simp
  note T = register_range_violation [OF st ok, of "constant_hash 7" "wm_init ''dev''" "[None]" False]
  have "\<exists>i<length [Some (ChanStr ''A'')]. \<exists>c. [Some (ChanStr ''A'')] ! i = Some c \<and>
              (\<exists>v\<in>set (transformed ?w [0, 1, 2] [id] i c). [1] ! i < \<bar>v - [0] ! i\<bar>)"
    using tr by simp
  with T obtain m r where mr: "fst ?R = Inl (HDAWGValueError m r)" by blast
  with T have s: "snd ?R = wm_init ''dev''"
    and ex: "\<exists>i<length [Some (ChanStr ''A'')]. \<exists>c. [Some (ChanStr ''A'')] ! i = Some c \<and> r = [1] ! i \<and> r < m \<and>
                m = Max ((\<lambda>v. \<bar>v - [0] ! i\<bar>) ` set (transformed ?w [0, 1, 2] [id] i c))"
    by blast+
  from ex tr have "r = 1" "m = 2" by auto
  with mr s show ?thesis by simp
qed


subsection \<open>The per-channel path\<close>

text \<open>
  C1. The claim is that on the per-channel path the samples of slot \<open>i\<close> are scaled with
  \<open>offset[i]\<close> and \<open>range[i]\<close>. The code passes the whole range and offset tuples to
  \<^verbatim>\<open>register\<close> together with one-element channel tuples, so \<^verbatim>\<open>register\<close> reads its index 0:
  every slot is scaled with the range and offset of the first slot. With the ranges
  \<open>(1, 2)\<close> a sample \<open>3/2\<close> on the second slot is rejected as out of range \<open>1\<close>, where the
  slot's own range gives the amplitude \<open>3/4\<close>; with the ranges \<open>(2, 1)\<close> the same sample is
  accepted and written as \<open>3/4\<close>, although it exceeds the slot's range \<open>1\<close>.
\<close>

theorem register_single_channels_first_range:
  "register_single_channels (constant_hash 7) (wm_init ''dev'') (Some (constant_waveform [3/2]))
        [None, Some (ChanStr ''A'')] [None, None] [id, id] 1 [1, 2] [0, 0] False
     = (Inl (HDAWGValueError (3/2) 1), wm_init ''dev'') \<and>
   volt_to_amp (transformed (constant_waveform [3/2]) [0] [id, id] 1 (ChanStr ''A'')) ([1, 2] ! 1) ([0, 0] ! 1)
     = Inr [Amp (3/4)] \<and>
   savetxt_log (snd (register_single_channels (constant_hash 7) (wm_init ''dev'') (Some (constant_waveform [3/2]))
        [None, Some (ChanStr ''A'')] [None, None] [id, id] 1 [2, 1] [0, 0] False))
     = [(''dev_7.csv'', Float64 [[Amp (3/4)]], ''%f'')]"
  by (simp add: wm_eval)


subsection \<open>The persisted arrays\<close>

text \<open>
  C5, as stated: the persisted wave array has one column per non-empty channel slot, an empty
  slot contributing no column. The code allocates \<^verbatim>\<open>np.zeros((n_samples, len(channels)))\<close>:
  with the channels \<open>(A, None)\<close> the file written has two columns, the second one zero,
  for one non-empty slot.
\<close>

theorem register_inactive_slot_column:
  "savetxt_log (snd (wm_register (constant_hash 7) (wm_init ''dev'') (constant_waveform [1/2])
       [Some (ChanStr ''A''), None] [None, None] [id, id] 1 [1, 1] [0, 0] False))
     = [(''dev_7.csv'', Float64 [[Amp (1/2)], [Amp 0]], ''%f'')] \<and>
   length [[Amp (1/2)], [Amp 0]] \<noteq> active_slots [Some (ChanStr ''A''), None]"
  by (simp add: wm_eval active_slots_def)


text \<open>
  C5, amended. Every array that a call of \<^verbatim>\<open>register\<close> writes is either a wave array, written
  with the format \<^verbatim>\<open>%f\<close> under a name recorded in the wave dictionary, or a marker array,
  written with \<^verbatim>\<open>%d\<close> under a name recorded in the marker dictionary. Both have one row per
  sample and one column per slot of \<^verbatim>\<open>channels\<close>, empty or not. In the wave array the column of
  an empty slot is zero, and the column of a non-empty slot whose range is not zero holds
  values in \<open>[-1, 1]\<close>. The marker array holds zeros and ones, and zeros for a slot without
  marker. A generated wave name is never a generated marker name.
\<close>

theorem register_persisted_arrays:
  assumes st: "sample_times w rate = (ts, n)"
  shows "(\<exists>new. savetxt_log (snd (wm_register H s w chans mrks vts rate rngs offs ow)) = savetxt_log s @ new \<and>
           (\<forall>(path, data, fmt)\<in>set new.
              (\<exists>a nm. data = Float64 a \<and> fmt = ''%f'' \<and> path = full_file_path s nm \<and>
                  wave_by_data (snd (wm_register H s w chans mrks vts rate rngs offs ow)) (H data) = Some nm \<and>
                  wave_array_shape n chans rngs a) \<or>
              (\<exists>b nm. data = UInt8 b \<and> fmt = ''%d'' \<and> path = full_file_path s nm \<and>
                  marker_by_data (snd (wm_register H s w chans mrks vts rate rngs offs ow)) (H data) = Some nm \<and>
                  marker_array_shape n (length chans) mrks b))) \<and>
         generate_wave_name s h \<noteq> generate_marker_name s h'"
proof -
  let ?R = "wm_register H s w chans mrks vts rate rngs offs ow"
  let ?W = "\<lambda>s' entry. case entry of (path, data, fmt) \<Rightarrow>
              (\<exists>a nm. data = Float64 a \<and> fmt = ''%f'' \<and> path = full_file_path s nm \<and>
                  wave_by_data s' (H data) = Some nm \<and> wave_array_shape n chans rngs a) \<or>
              (\<exists>b nm. data = UInt8 b \<and> fmt = ''%d'' \<and> path = full_file_path s nm \<and>
                  marker_by_data s' (H data) = Some nm \<and> marker_array_shape n (length chans) mrks b)"
  obtain rw s1 where rw: "register_wave H s w ts n chans vts rngs offs ow = (rw, s1)"
    by (cases "register_wave H s w ts n chans vts rngs offs ow")
  from register_wave_log [OF rw] obtain new1 where
    n1: "savetxt_log s1 = savetxt_log s @ new1"
    and w1: "\<forall>e\<in>set new1. \<exists>a nm. e = (full_file_path s nm, Float64 a, ''%f'') \<and>
               wave_by_data s1 (H (Float64 a)) = Some nm \<and> wave_array_shape n chans rngs a"
    by (auto dest: fill_amplitude_shape)
  have "\<exists>new. savetxt_log (snd ?R) = savetxt_log s @ new \<and> (\<forall>e\<in>set new. ?W (snd ?R) e)"
  proof (cases rw)
    case (Inl e)
    with rw have "snd ?R = s1" by (simp add: wm_register_def st)
    with n1 w1 show ?thesis by fastforce
  next
    case (Inr wn)
    obtain rm s2 where rm: "register_marker H s1 w ts n (length chans) mrks ow = (rm, s2)"
      by (cases "register_marker H s1 w ts n (length chans) mrks ow")
    from rw Inr rm have R: "snd ?R = s2"
      by (cases rm) (simp_all add: wm_register_def st)
    from register_wave_frame [OF rw] have ft: "full_file_path s1 = full_file_path s"
      by (auto simp: full_file_path_def fun_eq_iff)
    from register_marker_frame [OF rm] have wbd: "wave_by_data s2 = wave_by_data s1" by simp
    from register_marker_log [OF rm] obtain new2 where
      n2: "savetxt_log s2 = savetxt_log s1 @ new2"
      and w2: "\<forall>e\<in>set new2. \<exists>b nm. e = (full_file_path s nm, UInt8 b, ''%d'') \<and>
               marker_by_data s2 (H (UInt8 b)) = Some nm \<and> marker_array_shape n (length chans) mrks b"
      by (auto simp: ft dest: fill_marker_shape)
    have "savetxt_log s2 = savetxt_log s @ (new1 @ new2)" using n1 n2 by simp
    moreover have "\<forall>e\<in>set (new1 @ new2). ?W s2 e"
      using w1 w2 wbd by fastforce
    ultimately show ?thesis unfolding R by blast
  qed
  then show ?thesis using wave_marker_names_differ by blast
qed

theorem register_persisted_arrays_witness:
  "wave_array_shape 1 [Some (ChanStr ''A''), None] [1, 1] [[Amp (1/2)], [Amp 0]] \<and>
   marker_array_shape 1 2 [None, Some (ChanStr ''M'')] [[0], [1]]"
proof -
  let ?w = "constant_waveform [1/2]"
  let ?R = "wm_register (constant_hash 7) (wm_init ''dev'') ?w
       [Some (ChanStr ''A''), None] [None, Some (ChanStr ''M'')] [id, id] 1 [1, 1] [0, 0] False"
  have st: "sample_times ?w 1 = ([0], 1)"
    by (simp add: constant_waveform_def upt_rec)
  have log: "savetxt_log (snd ?R) =
      [(''dev_7.csv'', Float64 [[Amp (1/2)], [Amp 0]], ''%f''),
       (''dev_M_7.csv'', UInt8 [[0], [1]], ''%d'')]"
    by (simp add: wm_eval)
  from register_persisted_arrays [OF st, of "constant_hash 7" "wm_init ''dev''"
      "[Some (ChanStr ''A''), None]" "[None, Some (ChanStr ''M'')]" "[id, id]" "[1, 1]" "[0, 0]" False]
  obtain new where new: "savetxt_log (snd ?R) = savetxt_log (wm_init ''dev'') @ new"
    and all: "\<forall>(path, data, fmt)\<in>set new.
              (\<exists>a nm. data = Float64 a \<and> fmt = ''%f'' \<and> path = full_file_path (wm_init ''dev'') nm \<and>
                  wave_by_data (snd ?R) (constant_hash 7 data) = Some nm \<and>
                  wave_array_shape 1 [Some (ChanStr ''A''), None] [1, 1] a) \<or>
              (\<exists>b nm. data = UInt8 b \<and> fmt = ''%d'' \<and> path = full_file_path (wm_init ''dev'') nm \<and>
                  marker_by_data (snd ?R) (constant_hash 7 data) = Some nm \<and>
                  marker_array_shape 1 (length [Some (ChanStr ''A''), None]) [None, Some (ChanStr ''M'')] b)"
    by blast
  from new log have "new = [(''dev_7.csv'', Float64 [[Amp (1/2)], [Amp 0]], ''%f''),
       (''dev_M_7.csv'', UInt8 [[0], [1]], ''%d'')]"
    by (simp add: wm_init_def)
  with all show ?thesis by (auto simp: numeral_2_eq_2)
qed


subsection \<open>Registering the same content again\<close>

text \<open>
  C4. Let a call of \<^verbatim>\<open>register\<close> with \<^verbatim>\<open>overwrite=False\<close> succeed, and let a second call, with
  \<^verbatim>\<open>overwrite=False\<close> too, have the same sample content. Then the second call returns the
  names that the first call returned and changes nothing: it writes no file. And an artifact
  named by the calls that did not exist before the first call is written exactly once by the
  two calls together.
\<close>

theorem register_twice_idempotent:
  assumes first: "wm_register H s w chans mrks vts rate rngs offs False = (Inr (wave_name, marker_name), s1)"
    and same: "wave_content w' rate' chans' vts' rngs' offs' = wave_content w rate chans vts rngs offs"
      "marker_content w' rate' chans' mrks' = marker_content w rate chans mrks"
  shows "wm_register H s1 w' chans' mrks' vts' rate' rngs' offs' False = (Inr (wave_name, marker_name), s1) \<and>
         (\<forall>nm. (wave_name = Some nm \<or> marker_name = Some nm) \<and> wave_dir s (full_file_path s nm) = None \<longrightarrow>
            writes_to (full_file_path s nm)
              (savetxt_log (snd (wm_register H s1 w' chans' mrks' vts' rate' rngs' offs' False)))
            = writes_to (full_file_path s nm) (savetxt_log s) + 1)"
proof -
  obtain ts n where st: "sample_times w rate = (ts, n)" by (cases "sample_times w rate")
  obtain ts' n' where st': "sample_times w' rate' = (ts', n')" by (cases "sample_times w' rate'")
  obtain rw sa where rw: "register_wave H s w ts n chans vts rngs offs False = (rw, sa)"
    by (cases "register_wave H s w ts n chans vts rngs offs False")
  obtain rm sb where rm: "register_marker H sa w ts n (length chans) mrks False = (rm, sb)"
    by (cases "register_marker H sa w ts n (length chans) mrks False")
  from first st rw rm have res: "rw = Inr wave_name" "rm = Inr marker_name" "sb = s1"
    by (auto simp: wm_register_def split: sum.splits)
  note rw = rw [unfolded res] and rm = rm [unfolded res]
  from register_wave_frame [OF rw] have fa: "file_type sa = file_type s" by simp
  then have pa: "full_file_path sa = full_file_path s" by (simp add: full_file_path_def fun_eq_iff)
  from register_marker_frame [OF rm] have
    fm: "wave_by_data s1 = wave_by_data sa" "file_type s1 = file_type sa"
      "\<forall>p. wave_dir sa p \<noteq> None \<longrightarrow> wave_dir s1 p \<noteq> None"
    by simp_all
  have w2: "register_wave H s1 w' ts' n' chans' vts' rngs' offs' False = (Inr wave_name, s1)"
    by (rule register_wave_same_content [OF rw st st' same(1) fm])
  have m2: "register_marker H s1 w' ts' n' (length chans') mrks' False = (Inr marker_name, s1)"
    by (rule register_marker_same_content [OF rm st st' same(2)]) simp_all
  have second: "wm_register H s1 w' chans' mrks' vts' rate' rngs' offs' False = (Inr (wave_name, marker_name), s1)"
    using w2 m2 by (simp add: wm_register_def st')
  have count: "writes_to (full_file_path s nm) (savetxt_log s1) = writes_to (full_file_path s nm) (savetxt_log s) + 1"
    if nm: "wave_name = Some nm \<or> marker_name = Some nm" and absent: "wave_dir s (full_file_path s nm) = None"
    for nm
  proof (cases "wave_name = Some nm")
    case True
    from register_wave_first [OF rw] True absent have
      a: "wave_dir sa (full_file_path s nm) \<noteq> None"
        "writes_to (full_file_path s nm) (savetxt_log sa) = writes_to (full_file_path s nm) (savetxt_log s) + 1"
      by simp_all
    have "writes_to (full_file_path s nm) (savetxt_log s1) = writes_to (full_file_path s nm) (savetxt_log sa)"
    proof (cases marker_name)
      case None
      with register_marker_first [OF rm] show ?thesis by simp
    next
      case (Some m)
      with register_marker_first [OF rm] a(1) show ?thesis by (simp add: pa)
    qed
    with a(2) show ?thesis by simp
  next
    case False
    with nm have mn: "marker_name = Some nm" by simp
    have b: "wave_dir sa (full_file_path s nm) = None \<and>
        writes_to (full_file_path s nm) (savetxt_log sa) = writes_to (full_file_path s nm) (savetxt_log s)"
    proof (cases wave_name)
      case None
      with register_wave_first [OF rw] absent show ?thesis by simp
    next
      case (Some nm')
      with False have "full_file_path s nm \<noteq> full_file_path s nm'"
        by (simp add: full_file_path_inj)
      with register_wave_first [OF rw] Some absent show ?thesis by simp
    qed
    from register_marker_first [OF rm] mn b show ?thesis by (simp add: pa)
  qed
  from second count show ?thesis by simp
qed

theorem register_twice_idempotent_witness:
  "wm_register (constant_hash 7)
     (snd (wm_register (constant_hash 7) (wm_init ''dev'') (constant_waveform [1/2])
             [Some (ChanStr ''A'')] [Some (ChanStr ''M'')] [id] 1 [1] [0] False))
     (constant_waveform [1/2]) [Some (ChanStr ''B'')] [Some (ChanStr ''N'')] [id] 1 [1] [0] False
   = (Inr (Some ''dev_7'', Some ''dev_M_7''),
      snd (wm_register (constant_hash 7) (wm_init ''dev'') (constant_waveform [1/2])
             [Some (ChanStr ''A'')] [Some (ChanStr ''M'')] [id] 1 [1] [0] False)) \<and>
   writes_to ''dev_7.csv''
     (savetxt_log (snd (wm_register (constant_hash 7)
        (snd (wm_register (constant_hash 7) (wm_init ''dev'') (constant_waveform [1/2])
               [Some (ChanStr ''A'')] [Some (ChanStr ''M'')] [id] 1 [1] [0] False))
        (constant_waveform [1/2]) [Some (ChanStr ''B'')] [Some (ChanStr ''N'')] [id] 1 [1] [0] False))) = 1 \<and>
   writes_to ''dev_M_7.csv''
     (savetxt_log (snd (wm_register (constant_hash 7)
        (snd (wm_register (constant_hash 7) (wm_init ''dev'') (constant_waveform [1/2])
               [Some (ChanStr ''A'')] [Some (ChanStr ''M'')] [id] 1 [1] [0] False))
        (constant_waveform [1/2]) [Some (ChanStr ''B'')] [Some (ChanStr ''N'')] [id] 1 [1] [0] False))) = 1"
proof -
  let ?w = "constant_waveform [1/2]"
  let ?first = "wm_register (constant_hash 7) (wm_init ''dev'') ?w
             [Some (ChanStr ''A'')] [Some (ChanStr ''M'')] [id] 1 [1] [0] False"
  have "fst ?first = Inr (Some ''dev_7'', Some ''dev_M_7'')"
    by (simp add: wm_eval)
  then have first: "?first = (Inr (Some ''dev_7'', Some ''dev_M_7''), snd ?first)"
    by (metis prod.collapse)
  have same: "wave_content ?w 1 [Some (ChanStr ''B'')] [id] [1] [0]
                = wave_content ?w 1 [Some (ChanStr ''A'')] [id] [1] [0]"
     "marker_content ?w 1 [Some (ChanStr ''B'')] [Some (ChanStr ''N'')]
                = marker_content ?w 1 [Some (ChanStr ''A'')] [Some (ChanStr ''M'')]"
    by (simp_all add: wave_content_def marker_content_def wm_eval)
  have p: "full_file_path (wm_init ''dev'') ''dev_7'' = ''dev_7.csv''"
      "full_file_path (wm_init ''dev'') ''dev_M_7'' = ''dev_M_7.csv''"
      "wave_dir (wm_init ''dev'') ''dev_7.csv'' = None"
      "wave_dir (wm_init ''dev'') ''dev_M_7.csv'' = None"
      "savetxt_log (wm_init ''dev'') = []"
    by (simp_all add: full_file_path_def wm_init_def)
  note T = register_twice_idempotent [OF first same]
  from T have second: "wm_register (constant_hash 7) (snd ?first) ?w [Some (ChanStr ''B'')]
      [Some (ChanStr ''N'')] [id] 1 [1] [0] False = (Inr (Some ''dev_7'', Some ''dev_M_7''), snd ?first)"
    by (rule conjunct1)
  from T [THEN conjunct2, rule_format, of "''dev_7''"] p
  have c1: "writes_to ''dev_7.csv'' (savetxt_log (snd (wm_register (constant_hash 7) (snd ?first) ?w
      [Some (ChanStr ''B'')] [Some (ChanStr ''N'')] [id] 1 [1] [0] False))) = 1"
    by (simp add: writes_to_def)
  from T [THEN conjunct2, rule_format, of "''dev_M_7''"] p
  have c2: "writes_to ''dev_M_7.csv'' (savetxt_log (snd (wm_register (constant_hash 7) (snd ?first) ?w
      [Some (ChanStr ''B'')] [Some (ChanStr ''N'')] [id] 1 [1] [0] False))) = 1"
    by (simp add: writes_to_def)
  from second c1 c2 show ?thesis by (intro conjI)
qed


section \<open>Properties of the translator\<close>

subsection \<open>Auxiliary facts\<close>



lemma wm_register_refs:
  assumes "wm_register H s w chans mrks vts rate rngs offs ow = (Inr (wn, mn), s')"
  shows "(wn \<noteq> None \<longleftrightarrow> list_ex (\<lambda>chan. chan \<noteq> None) chans) \<and>
         (mn \<noteq> None \<longleftrightarrow> list_ex (\<lambda>marker. marker \<noteq> None) mrks)"
proof -
  obtain ts n where st: "sample_times w rate = (ts, n)" by (cases "sample_times w rate")
  obtain rw sa where rw: "register_wave H s w ts n chans vts rngs offs ow = (rw, sa)"
    by (cases "register_wave H s w ts n chans vts rngs offs ow")
  obtain rm sb where rm: "register_marker H sa w ts n (length chans) mrks ow = (rm, sb)"
    by (cases "register_marker H sa w ts n (length chans) mrks ow")
  from assms st rw rm have res: "rw = Inr wn" "rm = Inr mn"
    by (auto simp: wm_register_def split: sum.splits)
  have "wn \<noteq> None \<longleftrightarrow> list_ex (\<lambda>chan. chan \<noteq> None) chans"
  proof (cases "list_ex (\<lambda>chan. chan \<noteq> None) chans")
    case True
    with register_wave_None [of H s w ts n chans vts rngs offs ow sa] rw [unfolded res]
    show ?thesis by auto
  next
    case False
    with rw [unfolded res] show ?thesis by (simp add: register_wave_def)
  qed
  moreover have "mn \<noteq> None \<longleftrightarrow> list_ex (\<lambda>marker. marker \<noteq> None) mrks"
  proof (cases "list_ex (\<lambda>marker. marker \<noteq> None) mrks")
    case True
    with register_marker_None [of H sa w ts n "length chans" mrks ow sb] rm [unfolded res]
    show ?thesis by auto
  next
    case False
    with rm [unfolded res] show ?thesis by (simp add: register_marker_def)
  qed
  ultimately show ?thesis by simp
qed

lemma register_single_loop_names:
  "register_single_loop H wfm mrks vts rate rngs offs ow es s acc = (Inr names, s') \<Longrightarrow>
   \<exists>new. names = acc @ new \<and> slot_faithful mrks es new"
proof (induction es arbitrary: s acc)
  case Nil
  then show ?case by (simp add: slot_faithful_def)
next
  case (Cons x es)
  obtain idx channel where x: "x = (idx, channel)" by (cases x)
  from Cons.prems have il: "idx < length mrks"
    by (auto simp: x tuple_get_def split: if_splits)
  show ?case
  proof (cases "channel = None \<and> mrks ! idx = None")
    case True
    with Cons.prems il have "register_single_loop H wfm mrks vts rate rngs offs ow es s acc = (Inr names, s')"
      by (simp add: x tuple_get_def)
    from Cons.IH [OF this] obtain new where new: "names = acc @ new" "slot_faithful mrks es new" by blast
    from new(2) True have "slot_faithful mrks (x # es) new"
      by (auto simp: slot_faithful_def x)
    with new(1) show ?thesis by blast
  next
    case False
    with Cons.prems il obtain w wn mn s1 where
      reg: "wm_register H s w [channel] [mrks ! idx] [vts ! idx] rate rngs offs ow = (Inr (wn, mn), s1)"
      and rest: "register_single_loop H wfm mrks vts rate rngs offs ow es s1
                   (acc @ [(wn, mn, idx + 1, channel)]) = (Inr names, s')"
      by (auto simp: x tuple_get_def split: if_splits option.splits sum.splits prod.splits)
    from wm_register_refs [OF reg] have refs: "(wn \<noteq> None \<longleftrightarrow> channel \<noteq> None)" "(mn \<noteq> None \<longleftrightarrow> mrks ! idx \<noteq> None)"
      by simp_all
    from Cons.IH [OF rest] obtain new where
      new: "names = (acc @ [(wn, mn, idx + 1, channel)]) @ new" "slot_faithful mrks es new" by blast
    from new(2) False refs have "slot_faithful mrks (x # es) ((wn, mn, idx + 1, channel) # new)"
      by (auto simp: slot_faithful_def x)
    with new(1) show ?thesis by simp
  qed
qed


lemma enumerate_list_map: "enumerate_list xs = map (\<lambda>i. (i, xs ! i)) [0 ..< length xs]"
  by (auto simp: enumerate_list_def intro!: nth_equalityI)

lemma map_filter_operand:
  "\<forall>(wf_name, mk_name, k, c)\<in>set names. wf_name \<noteq> None \<or> mk_name \<noteq> None \<Longrightarrow>
   List.map_filter combined_name names = map operand names"
proof (induction names)
  case Nil
  show ?case by (simp add: List.map_filter_simps)
next
  case (Cons x names)
  obtain wf_name mk_name k c where x: "x = (wf_name, mk_name, k, c)" by (cases x)
  from Cons.prems have "wf_name \<noteq> None \<or> mk_name \<noteq> None" by (simp add: x)
  then have "combined_name x = Some (operand x)"
    unfolding x by (cases wf_name; cases mk_name) simp_all
  with Cons show ?case by (simp add: List.map_filter_simps)
qed


lemmas pm_eval = wm_eval waveform_to_seqc_def example_pm_def List.map_filter_simps dquote_def


subsection \<open>Repeat blocks\<close>



subsection \<open>Play instructions\<close>

text \<open>
  C8. When the translation of a leaf's waveform succeeds, the registered names have one entry
  for every hardware channel that has a channel or a marker assigned, in the order of the
  hardware channels and with the channel's index counted from one; an entry has a wave name
  exactly when a channel is assigned and a marker name exactly when a marker is assigned. The
  command is empty when there is no entry; otherwise it is one \<open>playWave\<close> instruction whose
  operands, joined by a comma and a blank, are the contributions of the entries:
  \<open>add(wave, marker)\<close> for both names, the one name otherwise.
\<close>

theorem waveform_to_seqc_play:
  assumes "waveform_to_seqc H pm wfm wm = (Inr command, wm')"
  shows "\<exists>names.
     register_single_channels H wm wfm (channels pm) (markers pm) (voltage_transformation pm)
        (sample_rate pm) (output_range pm) (output_offset pm) (overwrite pm) = (Inr names, wm') \<and>
     map (\<lambda>(wf_name, mk_name, k, c). k) names =
        map Suc (filter (\<lambda>i. channels pm ! i \<noteq> None \<or> markers pm ! i \<noteq> None)
                   [0 ..< length (channels pm)]) \<and>
     (\<forall>(wf_name, mk_name, k, c)\<in>set names.
        c = channels pm ! (k - 1) \<and>
        (wf_name \<noteq> None \<longleftrightarrow> channels pm ! (k - 1) \<noteq> None) \<and>
        (mk_name \<noteq> None \<longleftrightarrow> markers pm ! (k - 1) \<noteq> None)) \<and>
     command = (if names = [] then [] else ''playWave('' @ join '', '' (map operand names) @ '');'')"
proof -
  let ?rsc = "register_single_channels H wm wfm (channels pm) (markers pm) (voltage_transformation pm)
        (sample_rate pm) (output_range pm) (output_offset pm) (overwrite pm)"
  from assms obtain names where rsc: "?rsc = (Inr names, wm')"
    and cmd: "command = (let www = List.map_filter combined_name names
                         in if www = [] then [] else ''playWave('' @ join '', '' www @ '');'')"
    by (auto simp: waveform_to_seqc_def Let_def split: prod.splits sum.splits if_splits)
  from register_single_loop_names [OF rsc [unfolded register_single_channels_def]]
  have sf: "slot_faithful (markers pm) (enumerate_list (channels pm)) names" by simp
  have order: "map (\<lambda>(wf_name, mk_name, k, c). k) names =
        map Suc (filter (\<lambda>i. channels pm ! i \<noteq> None \<or> markers pm ! i \<noteq> None)
                   [0 ..< length (channels pm)])"
    using sf unfolding slot_faithful_def enumerate_list_map
    by (simp add: filter_map comp_def)
  have each: "\<forall>(wf_name, mk_name, k, c)\<in>set names.
        c = channels pm ! (k - 1) \<and>
        (wf_name \<noteq> None \<longleftrightarrow> channels pm ! (k - 1) \<noteq> None) \<and>
        (mk_name \<noteq> None \<longleftrightarrow> markers pm ! (k - 1) \<noteq> None)"
    using sf unfolding slot_faithful_def by (auto simp: in_enumerate_list)
  have active: "\<forall>(wf_name, mk_name, k, c)\<in>set names. wf_name \<noteq> None \<or> mk_name \<noteq> None"
  proof -
    have "channels pm ! (k - 1) \<noteq> None \<or> markers pm ! (k - 1) \<noteq> None"
      if "(wf_name, mk_name, k, c) \<in> set names" for wf_name mk_name k c
    proof -
      from that have "k \<in> set (map (\<lambda>(wf_name, mk_name, k, c). k) names)" by force
      then show ?thesis unfolding order by auto
    qed
    with each show ?thesis by fastforce
  qed
  from map_filter_operand [OF active] cmd
  have "command = (if names = [] then [] else ''playWave('' @ join '', '' (map operand names) @ '');'')"
    by (simp add: Let_def)
  with rsc order each show ?thesis by blast
qed

theorem waveform_to_seqc_play_witness:
  "\<exists>names. map (\<lambda>(wf_name, mk_name, k, c). k) names = [1, 3] \<and>
     ''playWave(1,add('' @ dquote @ ''dev_7'' @ dquote @ '', '' @ dquote @ ''dev_M_7'' @ dquote @ ''), 3,'' @ dquote @ ''dev_M_7'' @ dquote @ '');''
       = ''playWave('' @ join '', '' (map operand names) @ '');''"
proof -
  define command where "command =
     ''playWave(1,add('' @ dquote @ ''dev_7'' @ dquote @ '', '' @ dquote @ ''dev_M_7'' @ dquote @ ''), 3,'' @ dquote @ ''dev_M_7'' @ dquote @ '');''"
  define R where "R = waveform_to_seqc (constant_hash 7) example_pm (Some (constant_waveform [1/2])) (wm_init ''dev'')"
  have "fst R = Inr command"
    unfolding R_def command_def by (simp add: pm_eval)
  then have "R = (Inr command, snd R)"
    by (simp only: prod_eq_iff fst_conv snd_conv)
  then have R: "waveform_to_seqc (constant_hash 7) example_pm (Some (constant_waveform [1/2])) (wm_init ''dev'')
      = (Inr command, snd R)"
    unfolding R_def .
  have slots: "map Suc (filter (\<lambda>i. channels example_pm ! i \<noteq> None \<or> markers example_pm ! i \<noteq> None)
                   [0 ..< length (channels example_pm)]) = [1, 3]"
    by (simp add: example_pm_def upt_rec)
  from waveform_to_seqc_play [OF R] show ?thesis
  proof (elim exE conjE)
    fix names :: "registered_name list"
    assume n: "map (\<lambda>(wf_name, mk_name, k, c). k) names =
        map Suc (filter (\<lambda>i. channels example_pm ! i \<noteq> None \<or> markers example_pm ! i \<noteq> None)
                   [0 ..< length (channels example_pm)])"
      and c: "command = (if names = [] then [] else ''playWave('' @ join '', '' (map operand names) @ '');'')"
    from n slots have n': "map (\<lambda>(wf_name, mk_name, k, c). k) names = [1, 3]" by (simp only:)
    then have "names \<noteq> []" by (cases names) simp_all
    with c have "command = ''playWave('' @ join '', '' (map operand names) @ '');''"
      by (simp only: if_False)
    with n' show ?thesis unfolding command_def by (intro exI [of _ names] conjI)
  qed
qed


section \<open>Properties of the registry\<close>

subsection \<open>Auxiliary facts\<close>

lemma od_set_fresh: "k \<notin> fst ` set d \<Longrightarrow> od_set k v d = d @ [(k, v)]"
  by (induction d) auto

lemma generate_program_index_last:
  "generate_program_index pm = (if indices pm = [] then 1 else last (indices pm) + 1)"
  by (simp add: generate_program_index_def indices_def last_map)

lemma pm_register_known:
  assumes "pm_register H st name prog chans mrks vts rate rngs offs ow = (r, st')"
  shows "(r \<noteq> Inr () \<and> known_programs (fst st') = known_programs (fst st)) \<or>
         (r = Inr () \<and> (\<exists>entry. index entry = generate_program_index (fst st) \<and>
              known_programs (fst st') = od_set name entry (known_programs (fst st))))"
proof -
  let ?pm = "(fst st)\<lparr>channels := chans, markers := mrks, voltage_transformation := vts,
                        sample_rate := rate, overwrite := ow, output_range := rngs,
                        output_offset := offs\<rparr>"
  have g: "generate_program_index ?pm = generate_program_index (fst st)"
    by (simp add: generate_program_index_def)
  obtain t wm' where t: "program_to_seqc H ?pm prog (snd st) = (t, wm')"
    by (cases "program_to_seqc H ?pm prog (snd st)")
  show ?thesis
  proof (cases t)
    case (Inl e)
    with assms t show ?thesis by (auto simp: pm_register_def Let_def)
  next
    case (Inr seqc_gen)
    let ?entry = "\<lparr>program = prog, index = generate_program_index ?pm,
                       seqc_rep = join ''\<newline>'' seqc_gen\<rparr>"
    from assms t Inr have "r = Inr ()"
      and "known_programs (fst st') = od_set name ?entry (known_programs (fst st))"
      by (auto simp: pm_register_def Let_def)
    moreover have "index ?entry = generate_program_index (fst st)" using g by simp
    ultimately show ?thesis by blast
  qed
qed

lemma sorted_wrt_less_last:
  fixes xs :: "int list"
  shows "sorted_wrt (<) xs \<Longrightarrow> x \<in> set xs \<Longrightarrow> x \<le> last xs"
  by (induction xs) (auto simp: less_imp_le)

lemma indices_below_next:
  assumes "sorted_wrt (<) (indices pm)" "x \<in> set (indices pm)"
  shows "x < generate_program_index pm"
  using sorted_wrt_less_last [OF assms] assms(2)
  by (auto simp: generate_program_index_last)

lemma apply_call_sorted:
  assumes inv: "sorted_wrt (<) (indices (fst st))"
    and fresh: "case c of Register name prog cfg \<Rightarrow> name \<notin> programs (fst st) | _ \<Rightarrow> True"
  shows "sorted_wrt (<) (indices (fst (snd (apply_call H c st))))"
proof (cases c)
  case (Register name prog cfg)
  obtain r st' where a: "apply_call H c st = (r, st')" by (cases "apply_call H c st")
  then have reg: "pm_register H st name prog (cfg_channels cfg) (cfg_markers cfg)
       (cfg_voltage_transformation cfg) (cfg_sample_rate cfg) (cfg_output_range cfg)
       (cfg_output_offset cfg) (cfg_overwrite cfg) = (r, st')"
    by (simp add: Register)
  from fresh have nf: "name \<notin> fst ` set (known_programs (fst st))"
    by (simp add: Register programs_def)
  from pm_register_known [OF reg] show ?thesis
  proof
    assume "r \<noteq> Inr () \<and> known_programs (fst st') = known_programs (fst st)"
    with inv a show ?thesis by (simp add: indices_def)
  next
    assume "r = Inr () \<and> (\<exists>entry. index entry = generate_program_index (fst st) \<and>
              known_programs (fst st') = od_set name entry (known_programs (fst st)))"
    then obtain entry where e: "index entry = generate_program_index (fst st)"
      and k: "known_programs (fst st') = known_programs (fst st) @ [(name, entry)]"
      using od_set_fresh [OF nf] by auto
    have "indices (fst st') = indices (fst st) @ [generate_program_index (fst st)]"
      by (simp add: indices_def k e)
    moreover have "\<forall>x\<in>set (indices (fst st)). x < generate_program_index (fst st)"
      using indices_below_next [OF inv] by blast
    ultimately show ?thesis using inv a by (simp add: sorted_wrt_append)
  qed
next
  case (Remove name)
  have "sorted_wrt (<) (map (\<lambda>item. index (snd item)) (filter (\<lambda>item. fst item \<noteq> name) (known_programs (fst st))))"
    using inv unfolding indices_def
    by (induction "known_programs (fst st)" arbitrary: st) (auto simp: sorted_wrt_map sorted_wrt_filter)
  with inv show ?thesis
    by (auto simp: Remove pm_remove_def indices_def split: prod.splits)
next
  case Clear
  then show ?thesis by (simp add: pm_clear_def indices_def)
qed

lemma run_calls_Cons:
  "snd (run_calls H (c # cs) st) = snd (run_calls H cs (snd (apply_call H c st)))"
  "fst (run_calls H (c # cs) st) = fst (apply_call H c st) # fst (run_calls H cs (snd (apply_call H c st)))"
  by (simp_all split: prod.splits)

lemma run_calls_sorted:
  "sorted_wrt (<) (indices (fst st)) \<Longrightarrow> fresh_calls H calls st \<Longrightarrow>
   sorted_wrt (<) (indices (fst (snd (run_calls H calls st))))"
proof (induction calls arbitrary: st)
  case Nil
  then show ?case by simp
next
  case (Cons c cs)
  from Cons.prems have 1: "sorted_wrt (<) (indices (fst (snd (apply_call H c st))))"
    by (intro apply_call_sorted) simp_all
  from Cons.prems have 2: "fresh_calls H cs (snd (apply_call H c st))" by simp
  from Cons.IH [OF 1 2] show ?case
    by (simp only: run_calls_Cons)
qed

lemma set_od_set: "set (od_set k v d) \<subseteq> insert (k, v) (set d)"
  by (induction d) (auto split: if_splits)

lemma indices_od_set:
  "set (map (\<lambda>item. index (snd item)) (od_set k v d)) \<subseteq>
     insert (index v) (set (map (\<lambda>item. index (snd item)) d))"
  using image_mono [OF set_od_set [of k v d], of "\<lambda>item. index (snd item)"] by simp

lemma next_index_positive:
  "\<forall>x\<in>set (indices pm). 1 \<le> x \<Longrightarrow> 1 \<le> generate_program_index pm"
proof -
  assume a: "\<forall>x\<in>set (indices pm). 1 \<le> x"
  show ?thesis
  proof (cases "indices pm = []")
    case True
    then show ?thesis by (simp add: generate_program_index_last)
  next
    case False
    then have "last (indices pm) \<in> set (indices pm)" by simp
    with a have "1 \<le> last (indices pm)" by blast
    with False show ?thesis by (simp add: generate_program_index_last)
  qed
qed

lemma apply_call_positive:
  assumes inv: "\<forall>x\<in>set (indices (fst st)). 1 \<le> x"
  shows "\<forall>x\<in>set (indices (fst (snd (apply_call H c st)))). 1 \<le> x"
proof (cases c)
  case (Register name prog cfg)
  obtain r st' where a: "apply_call H c st = (r, st')" by (cases "apply_call H c st")
  then have reg: "pm_register H st name prog (cfg_channels cfg) (cfg_markers cfg)
       (cfg_voltage_transformation cfg) (cfg_sample_rate cfg) (cfg_output_range cfg)
       (cfg_output_offset cfg) (cfg_overwrite cfg) = (r, st')"
    by (simp add: Register)
  from pm_register_known [OF reg] show ?thesis
  proof
    assume "r \<noteq> Inr () \<and> known_programs (fst st') = known_programs (fst st)"
    with inv a show ?thesis by (simp add: indices_def)
  next
    assume "r = Inr () \<and> (\<exists>entry. index entry = generate_program_index (fst st) \<and>
              known_programs (fst st') = od_set name entry (known_programs (fst st)))"
    then obtain entry where e: "index entry = generate_program_index (fst st)"
      and k: "known_programs (fst st') = od_set name entry (known_programs (fst st))"
      by auto
    have "set (indices (fst st')) \<subseteq> insert (generate_program_index (fst st)) (set (indices (fst st)))"
      unfolding indices_def k using indices_od_set [of name entry "known_programs (fst st)"] e by simp
    with inv next_index_positive [OF inv] a show ?thesis by auto
  qed
next
  case (Remove name)
  with inv show ?thesis
    by (auto simp: pm_remove_def indices_def split: prod.splits)
next
  case Clear
  then show ?thesis by (simp add: pm_clear_def indices_def)
qed

lemma run_calls_positive:
  "\<forall>x\<in>set (indices (fst st)). 1 \<le> x \<Longrightarrow>
   \<forall>x\<in>set (indices (fst (snd (run_calls H calls st)))). 1 \<le> x"
proof (induction calls arbitrary: st)
  case Nil
  then show ?case by simp
next
  case (Cons c cs)
  from Cons.IH [OF apply_call_positive [OF Cons.prems]] show ?case
    by (simp only: run_calls_Cons)
qed

lemma run_registers:
  assumes "name_indices (fst st) = zip ns (map (\<lambda>k. int (Suc k)) [0 ..< length ns])"
    and "distinct (ns @ map fst regs)"
    and "list_all (\<lambda>r. r = Inr ()) (fst (run_calls H (map register_call regs) st))"
  shows "name_indices (fst (snd (run_calls H (map register_call regs) st))) =
           zip (ns @ map fst regs) (map (\<lambda>k. int (Suc k)) [0 ..< length ns + length regs])"
  using assms
proof (induction regs arbitrary: st ns)
  case Nil
  then show ?case by simp
next
  case (Cons reg regs)
  obtain name prog cfg where reg: "reg = (name, prog, cfg)" by (cases reg)
  let ?c = "Register name prog cfg"
  obtain r st' where a: "apply_call H ?c st = (r, st')" by (cases "apply_call H ?c st")
  then have pr: "pm_register H st name prog (cfg_channels cfg) (cfg_markers cfg)
       (cfg_voltage_transformation cfg) (cfg_sample_rate cfg) (cfg_output_range cfg)
       (cfg_output_offset cfg) (cfg_overwrite cfg) = (r, st')"
    by simp
  have m: "map register_call (reg # regs) = ?c # map register_call regs"
    by (simp add: reg register_call_def)
  from Cons.prems(3) have "list_all (\<lambda>r. r = Inr ())
      (fst (apply_call H ?c st) # fst (run_calls H (map register_call regs) (snd (apply_call H ?c st))))"
    unfolding m run_calls_Cons .
  then have ok: "r = Inr ()"
    and rest: "list_all (\<lambda>r. r = Inr ()) (fst (run_calls H (map register_call regs) st'))"
    unfolding a by simp_all
  have len: "length ns = length (map (\<lambda>k. int (Suc k)) [0 ..< length ns])" by simp
  have keys: "map fst (known_programs (fst st)) = ns"
  proof -
    have A: "map fst (known_programs (fst st)) = map fst (name_indices (fst st))"
      by (simp add: name_indices_def comp_def)
    show ?thesis unfolding A Cons.prems(1) by (rule map_fst_zip [OF len])
  qed
  have idx: "indices (fst st) = map (\<lambda>k. int (Suc k)) [0 ..< length ns]"
  proof -
    have A: "indices (fst st) = map snd (name_indices (fst st))"
      by (simp add: name_indices_def indices_def comp_def)
    show ?thesis unfolding A Cons.prems(1) by (rule map_snd_zip [OF len])
  qed
  have gen: "generate_program_index (fst st) = int (Suc (length ns))"
  proof (cases ns rule: rev_cases)
    case Nil
    then show ?thesis unfolding generate_program_index_last idx by simp
  next
    case (snoc ns' x)
    then show ?thesis unfolding generate_program_index_last idx by simp
  qed
  from Cons.prems(2) have "name \<notin> set ns" by (simp add: reg)
  then have nf: "name \<notin> fst ` set (known_programs (fst st))"
    unfolding keys [symmetric] by simp
  from pm_register_known [OF pr] ok obtain entry where
    e: "index entry = generate_program_index (fst st)"
    and k: "known_programs (fst st') = known_programs (fst st) @ [(name, entry)]"
    using od_set_fresh [OF nf] by auto
  have ni: "name_indices (fst st') = zip (ns @ [name]) (map (\<lambda>k. int (Suc k)) [0 ..< length (ns @ [name])])"
  proof -
    have "name_indices (fst st') = name_indices (fst st) @ [(name, int (Suc (length ns)))]"
      by (simp add: name_indices_def k e gen)
    then show ?thesis by (simp add: Cons.prems(1))
  qed
  from Cons.prems(2) have d: "distinct ((ns @ [name]) @ map fst regs)" by (simp add: reg)
  from Cons.IH [OF ni d rest] show ?case
    unfolding m run_calls_Cons a by (simp add: reg)
qed

lemmas registry_eval = pm_eval pm_register_def pm_remove_def pm_clear_def example_cfg_def
  example_leaf_def register_call_def generate_program_index_def name_to_index_def programs_def


subsection \<open>Indices start at one\<close>

text \<open>
  C9. On a registry without programs, registrations of pairwise distinct names that all
  succeed leave the names registered in their order with the indices \<open>1, 2, ..., N\<close>.
  And whatever calls are made on such a registry (registrations, also of known names,
  removals, clearing), every index that an entry holds is at least one, and so is the index
  that the next registration assigns: the index zero is never assigned.
\<close>

theorem program_indices_from_one:
  assumes "known_programs pm = []"
  shows "(distinct (map fst regs) \<and>
          list_all (\<lambda>r. r = Inr ()) (fst (run_calls H (map register_call regs) (pm, wm))) \<longrightarrow>
            name_indices (fst (snd (run_calls H (map register_call regs) (pm, wm)))) =
              zip (map fst regs) (map int [1 ..< Suc (length regs)])) \<and>
         (\<forall>x\<in>set (indices (fst (snd (run_calls H calls (pm, wm))))). 1 \<le> x) \<and>
         1 \<le> generate_program_index (fst (snd (run_calls H calls (pm, wm))))"
proof -
  have e: "map (\<lambda>k. int (Suc k)) [0 ..< n] = map int [1 ..< Suc n]" for n
  proof -
    have "map int [1 ..< Suc n] = map int (map Suc [0 ..< n])"
      unfolding map_Suc_upt by simp
    also have "\<dots> = map (\<lambda>k. int (Suc k)) [0 ..< n]"
      unfolding map_map comp_def ..
    finally show ?thesis by (rule sym)
  qed
  have start: "name_indices (fst (pm, wm)) = zip [] (map (\<lambda>k. int (Suc k)) [0 ..< length ([] :: string list)])"
    using assms by (simp add: name_indices_def)
  have A: "name_indices (fst (snd (run_calls H (map register_call regs) (pm, wm)))) =
              zip (map fst regs) (map int [1 ..< Suc (length regs)])"
    if "distinct (map fst regs)"
       "list_all (\<lambda>r. r = Inr ()) (fst (run_calls H (map register_call regs) (pm, wm)))"
    using run_registers [OF start, of regs H] that unfolding e [symmetric] by simp
  have inv: "\<forall>x\<in>set (indices (fst (pm, wm))). 1 \<le> x"
    using assms by (simp add: indices_def)
  note B = run_calls_positive [OF inv, of H calls]
  from A B next_index_positive [OF B] show ?thesis by blast
qed


theorem program_indices_from_one_witness:
  "name_indices (fst (snd (run_calls (constant_hash 7)
       (map register_call [(''a'', example_leaf, example_cfg), (''b'', example_leaf, example_cfg)])
       (example_pm, wm_init ''dev'')))) = [(''a'', 1), (''b'', 2)] \<and>
   list_all (\<lambda>x. 1 \<le> x) (indices (fst (snd (run_calls (constant_hash 7)
       [Register ''a'' example_leaf example_cfg, Remove ''a'', Register ''a'' example_leaf example_cfg]
       (example_pm, wm_init ''dev'')))))"
proof -
  have empty: "known_programs example_pm = []" by (simp add: example_pm_def)
  have ok: "distinct (map fst [(''a'', example_leaf, example_cfg), (''b'', example_leaf, example_cfg)]) \<and>
      list_all (\<lambda>r. r = Inr ()) (fst (run_calls (constant_hash 7)
        (map register_call [(''a'', example_leaf, example_cfg), (''b'', example_leaf, example_cfg)])
        (example_pm, wm_init ''dev'')))"
    by (simp add: registry_eval)
  note T = program_indices_from_one [OF empty, of
      "[(''a'', example_leaf, example_cfg), (''b'', example_leaf, example_cfg)]" "constant_hash 7"
      "wm_init ''dev''"
      "[Register ''a'' example_leaf example_cfg, Remove ''a'', Register ''a'' example_leaf example_cfg]"]
  from T [THEN conjunct1, THEN mp, OF ok] have "name_indices (fst (snd (run_calls (constant_hash 7)
       (map register_call [(''a'', example_leaf, example_cfg), (''b'', example_leaf, example_cfg)])
       (example_pm, wm_init ''dev'')))) =
       zip (map fst [(''a'', example_leaf, example_cfg), (''b'', example_leaf, example_cfg)])
         (map int [1 ..< Suc (length [(''a'', example_leaf, example_cfg), (''b'', example_leaf, example_cfg)])])"
    .
  then have 1: "name_indices (fst (snd (run_calls (constant_hash 7)
       (map register_call [(''a'', example_leaf, example_cfg), (''b'', example_leaf, example_cfg)])
       (example_pm, wm_init ''dev'')))) = [(''a'', 1), (''b'', 2)]"
    by (simp only: list.map fst_conv list.size length_Cons) (simp add: upt_rec)
  from T [THEN conjunct2, THEN conjunct1] have 2: "list_all (\<lambda>x. 1 \<le> x) (indices (fst (snd (run_calls (constant_hash 7)
       [Register ''a'' example_leaf example_cfg, Remove ''a'', Register ''a'' example_leaf example_cfg]
       (example_pm, wm_init ''dev'')))))"
    unfolding list_all_iff .
  from 1 2 show ?thesis by (rule conjI)
qed


subsection \<open>Indices and removal\<close>

text \<open>
  C2, as stated: an index once assigned is never assigned again. The registry keeps no
  counter; the next index is one more than the index of the last entry. After the last
  entry is removed its index is the next one again: \<open>b\<close> is registered with index 2 and
  removed, and \<open>c\<close> is registered with index 2.
\<close>

theorem program_index_reused_after_removal:
  "name_to_index (fst (snd (run_calls (constant_hash 7)
       [Register ''a'' example_leaf example_cfg, Register ''b'' example_leaf example_cfg]
       (example_pm, wm_init ''dev'')))) ''b'' = Inr 2 \<and>
   name_to_index (fst (snd (run_calls (constant_hash 7)
       [Register ''a'' example_leaf example_cfg, Register ''b'' example_leaf example_cfg,
        Remove ''b'', Register ''c'' example_leaf example_cfg]
       (example_pm, wm_init ''dev'')))) ''c'' = Inr 2"
  by (simp add: registry_eval)



text \<open>
  C2, amended. On a registry that starts without programs, and for calls in which no
  registration uses a name that is registered at that moment, the indices of the registered
  entries increase strictly in insertion order, and the index that the next registration
  assigns is greater than the index of every registered entry. So a new index differs from
  the index of every program that is still registered.
\<close>

theorem program_indices_increase:
  assumes "known_programs pm = []" and "fresh_calls H calls (pm, wm)"
  shows "sorted_wrt (<) (indices (fst (snd (run_calls H calls (pm, wm))))) \<and>
         (\<forall>x\<in>set (indices (fst (snd (run_calls H calls (pm, wm))))).
            x < generate_program_index (fst (snd (run_calls H calls (pm, wm)))))"
proof -
  have inv: "sorted_wrt (<) (indices (fst (pm, wm)))"
    using assms(1) by (simp add: indices_def)
  note S = run_calls_sorted [OF inv assms(2)]
  from S indices_below_next [OF S] show ?thesis by blast
qed

theorem program_indices_increase_witness:
  "sorted_wrt (<) (indices (fst (snd (run_calls (constant_hash 7)
       [Register ''a'' example_leaf example_cfg, Register ''b'' example_leaf example_cfg,
        Remove ''a'', Register ''c'' example_leaf example_cfg]
       (example_pm, wm_init ''dev''))))) \<and>
   indices (fst (snd (run_calls (constant_hash 7)
       [Register ''a'' example_leaf example_cfg, Register ''b'' example_leaf example_cfg,
        Remove ''a'', Register ''c'' example_leaf example_cfg]
       (example_pm, wm_init ''dev'')))) = [2, 3]"
proof -
  have empty: "known_programs example_pm = []" by (simp add: example_pm_def)
  have fresh: "fresh_calls (constant_hash 7)
       [Register ''a'' example_leaf example_cfg, Register ''b'' example_leaf example_cfg,
        Remove ''a'', Register ''c'' example_leaf example_cfg]
       (example_pm, wm_init ''dev'')"
    by (simp add: registry_eval)
  have ix: "indices (fst (snd (run_calls (constant_hash 7)
       [Register ''a'' example_leaf example_cfg, Register ''b'' example_leaf example_cfg,
        Remove ''a'', Register ''c'' example_leaf example_cfg]
       (example_pm, wm_init ''dev'')))) = [2, 3]"
    by (simp add: registry_eval indices_def)
  from program_indices_increase [OF empty fresh, THEN conjunct1] ix show ?thesis by (rule conjI)
qed

end
